theory Spec2Isabelle
  imports Main
begin

section \<open>JavaScript values\<close>

text \<open>
  The analyzer's output reaches the adapter through \<^verbatim>\<open>JSON.parse\<close>, so at run time
  every field may hold any JSON value, whatever the TypeScript interfaces declare. The
  values are modelled as they exist at run time; \<open>JUndefined\<close> is what reading a missing
  property yields. Strings are byte strings; of a number only its being zero is ever
  observed by the code below.
\<close>

datatype jsval =
    JUndefined
  | JNull
  | JBool bool
  | JNum int
  | JStr string
  | JArr "jsval list"
  | JObj "(string \<times> jsval) list"

text \<open>
  The exceptions a run can end with: a TypeError (a method or property read on a value
  that has none), the SyntaxError of \<^verbatim>\<open>JSON.parse\<close>, the error \<^verbatim>\<open>execFile\<close> rejected
  with, kept as it is with its \<^verbatim>\<open>code\<close> (if it has one) and its message, and the
  fresh error the adapter throws in place of a rejection with code ENOENT, whose message
  is the constant "k8sgpt is not installed. Please install it to use this tool.".
\<close>

datatype error =
    TypeError
  | SyntaxError
  | NotInstalled
  | ExecError "string option" string

fun errorCode :: "error \<Rightarrow> string option" where
  "errorCode (ExecError code msg) = code"
| "errorCode e = None"

text \<open>Truthiness, as \<^verbatim>\<open>!x\<close>, \<^verbatim>\<open>x || y\<close> and \<^verbatim>\<open>if (x)\<close> test it.\<close>

fun truthy :: "jsval \<Rightarrow> bool" where
  "truthy JUndefined = False"
| "truthy JNull = False"
| "truthy (JBool b) = b"
| "truthy (JNum n) = (n \<noteq> 0)"
| "truthy (JStr s) = (s \<noteq> [])"
| "truthy (JArr xs) = True"
| "truthy (JObj fs) = True"

fun isArray :: "jsval \<Rightarrow> bool" where
  "isArray (JArr xs) = True"
| "isArray v = False"

text \<open>
  Reading a property \<^verbatim>\<open>v.k\<close>: a TypeError on \<^verbatim>\<open>undefined\<close> and \<^verbatim>\<open>null\<close>, the
  stored value on an object, \<^verbatim>\<open>undefined\<close> otherwise (the property names read below,
  \<^verbatim>\<open>results\<close>, \<^verbatim>\<open>name\<close>, \<^verbatim>\<open>kind\<close>, \<^verbatim>\<open>error\<close>, \<^verbatim>\<open>Text\<close> and \<^verbatim>\<open>KubernetesDoc\<close>,
  are defined on no prototype).
\<close>

fun getProp :: "jsval \<Rightarrow> string \<Rightarrow> error + jsval" where
  "getProp JUndefined k = Inl TypeError"
| "getProp JNull k = Inl TypeError"
| "getProp (JObj fs) k = Inr (case map_of fs k of None \<Rightarrow> JUndefined | Some v \<Rightarrow> v)"
| "getProp v k = Inr JUndefined"

section \<open>Strings\<close>

text \<open>\<^verbatim>\<open>String.prototype.startsWith\<close> and \<^verbatim>\<open>String.prototype.includes\<close>.\<close>

fun startsWith :: "string \<Rightarrow> string \<Rightarrow> bool" where
  "startsWith s [] = True"
| "startsWith [] (p # ps) = False"
| "startsWith (c # cs) (p # ps) = (c = p \<and> startsWith cs ps)"

fun includes_str :: "string \<Rightarrow> string \<Rightarrow> bool" where
  "includes_str [] sub = (sub = [])"
| "includes_str (c # cs) sub = (startsWith (c # cs) sub \<or> includes_str cs sub)"

text \<open>
  \<^verbatim>\<open>String.prototype.toLowerCase\<close> is a function of the JavaScript library, with the
  case mapping of Unicode behind it (the Kelvin sign lower-cases to the letter k). It is
  not part of this program, so every function below that reaches it takes it as the
  parameter \<open>toLowerCase\<close>, of which nothing is assumed. What is certain of it is its
  value on a text of ASCII characters alone: the letters A to Z become a to z and nothing
  else changes. That is \<open>asciiLowerCase\<close>, and \<open>lowersASCII\<close> says that a function
  agrees with it on such texts.
\<close>

definition asciiLowerChar :: "char \<Rightarrow> char" where
  "asciiLowerChar c =
     (let n = of_char c :: nat in if 65 \<le> n \<and> n \<le> 90 then char_of (n + 32) else c)"

definition asciiLowerCase :: "string \<Rightarrow> string" where
  "asciiLowerCase s = map asciiLowerChar s"

definition isASCII :: "string \<Rightarrow> bool" where
  "isASCII s = list_all (\<lambda>c. (of_char c :: nat) < 128) s"

definition lowersASCII :: "(string \<Rightarrow> string) \<Rightarrow> bool" where
  "lowersASCII toLowerCase = (\<forall>s. isASCII s \<longrightarrow> toLowerCase s = asciiLowerCase s)"

text \<open>\<^verbatim>\<open>Array.prototype.join\<close> on an array of strings.\<close>

fun join :: "string \<Rightarrow> string list \<Rightarrow> string" where
  "join sep [] = []"
| "join sep [x] = x"
| "join sep (x # y # ys) = x @ sep @ join sep (y # ys)"

text \<open>\<^verbatim>\<open>s.split(c)\<close> for a separator of one character.\<close>

fun split_str :: "char \<Rightarrow> string \<Rightarrow> string list" where
  "split_str c [] = [[]]"
| "split_str c (x # xs) =
     (if x = c then [] # split_str c xs
      else (case split_str c xs of [] \<Rightarrow> [[x]] | p # ps \<Rightarrow> (x # p) # ps))"

section \<open>Issues and their summary (analyzer.ts)\<close>

datatype severity = Critical | Warning | Info

text \<open>
  An \<^verbatim>\<open>Issue\<close>. The adapter copies \<^verbatim>\<open>kind\<close>, \<^verbatim>\<open>name\<close>, \<^verbatim>\<open>namespace\<close>, \<^verbatim>\<open>problem\<close>
  and \<^verbatim>\<open>solution\<close> from parsed JSON unchecked, so these fields hold run-time values;
  \<^verbatim>\<open>severity\<close> is always one of the three literals.
\<close>

record issue =
  kind :: jsval
  name :: jsval
  namespace :: jsval
  problem :: jsval
  solution :: jsval
  severity :: severity

record summary =
  total :: nat
  critical :: nat
  warning :: nat
  info :: nat

definition summarizeIssues :: "issue list \<Rightarrow> summary" where
  "summarizeIssues issues =
     \<lparr> total = length issues,
       critical = length (filter (\<lambda>i. severity i = Critical) issues),
       warning = length (filter (\<lambda>i. severity i = Warning) issues),
       info = length (filter (\<lambda>i. severity i = Info) issues) \<rparr>"

section \<open>Severity from diagnostic text (k8sgpt-adapter.ts)\<close>

definition determineSeverity :: "(string \<Rightarrow> string) \<Rightarrow> string \<Rightarrow> severity" where
  "determineSeverity toLowerCase errorText =
     (let lowerText = toLowerCase errorText in
      if includes_str lowerText ''crash'' \<or>
         includes_str lowerText ''failed'' \<or>
         includes_str lowerText ''error'' \<or>
         includes_str lowerText ''deadline exceeded'' \<or>
         includes_str lowerText ''oomkilled''
      then Critical
      else if includes_str lowerText ''warning'' \<or>
              includes_str lowerText ''pending'' \<or>
              includes_str lowerText ''unschedulable''
      then Warning
      else Info)"

text \<open>
  The classifier as the specification words it: a text contains a keyword when the
  keyword occurs somewhere in its lower-cased form, the lower-casing being the library's.
\<close>

definition critical_triggers :: "string list" where
  "critical_triggers = [''crash'', ''failed'', ''error'', ''deadline exceeded'', ''oomkilled'']"

definition warning_triggers :: "string list" where
  "warning_triggers = [''warning'', ''pending'', ''unschedulable'']"

definition contains_any :: "(string \<Rightarrow> string) \<Rightarrow> string list \<Rightarrow> string \<Rightarrow> bool" where
  "contains_any toLowerCase kws text =
     (\<exists>kw \<in> set kws. \<exists>pre post. toLowerCase text = pre @ kw @ post)"

definition classify_spec :: "(string \<Rightarrow> string) \<Rightarrow> string \<Rightarrow> severity" where
  "classify_spec toLowerCase text =
     (if contains_any toLowerCase critical_triggers text then Critical
      else if contains_any toLowerCase warning_triggers text then Warning
      else Info)"

section \<open>Normalising the analyzer's output (k8sgpt-adapter.ts)\<close>

text \<open>
  The destructuring \<^verbatim>\<open>const [namespace, name] = result.name.includes('/') ?
  result.name.split('/') : [undefined, result.name]\<close>. A string has both methods. An
  array has \<^verbatim>\<open>includes\<close> but no \<^verbatim>\<open>split\<close>. On every other value the call of
  \<^verbatim>\<open>includes\<close> is a TypeError.
\<close>

definition component :: "string list \<Rightarrow> nat \<Rightarrow> jsval" where
  "component parts i = (if i < length parts then JStr (parts ! i) else JUndefined)"

fun splitName :: "jsval \<Rightarrow> error + jsval \<times> jsval" where
  "splitName (JStr s) =
     (if includes_str s ''/''
      then (let parts = split_str CHR ''/'' s in Inr (component parts 0, component parts 1))
      else Inr (JUndefined, JStr s))"
| "splitName (JArr xs) =
     (if JStr ''/'' \<in> set xs then Inl TypeError else Inr (JUndefined, JArr xs))"
| "splitName v = Inl TypeError"

text \<open>
  The body of the inner loop: one diagnostic entry becomes one issue.
  \<^verbatim>\<open>determineSeverity\<close> calls \<^verbatim>\<open>toLowerCase\<close> on the text, a TypeError unless the
  text is a string.
\<close>

definition convertError ::
  "(string \<Rightarrow> string) \<Rightarrow> jsval \<Rightarrow> jsval \<Rightarrow> jsval \<Rightarrow> jsval \<Rightarrow> error + issue" where
  "convertError toLowerCase kindv namev namespacev err =
     (case getProp err ''Text'' of
        Inl e \<Rightarrow> Inl e
      | Inr text \<Rightarrow>
          (case getProp err ''KubernetesDoc'' of
             Inl e \<Rightarrow> Inl e
           | Inr doc \<Rightarrow>
               (case text of
                  JStr t \<Rightarrow>
                    Inr \<lparr> kind = kindv, name = namev, namespace = namespacev,
                          problem = text,
                          solution = (if truthy doc then doc
                             else JStr ''Check k8sgpt documentation for more details''),
                          severity = determineSeverity toLowerCase t \<rparr>
                | _ \<Rightarrow> Inl TypeError)))"

fun convertErrors ::
  "(string \<Rightarrow> string) \<Rightarrow> jsval \<Rightarrow> jsval \<Rightarrow> jsval \<Rightarrow> jsval list \<Rightarrow> error + issue list" where
  "convertErrors toLowerCase kindv namev namespacev [] = Inr []"
| "convertErrors toLowerCase kindv namev namespacev (err # errs) =
     (case convertError toLowerCase kindv namev namespacev err of
        Inl e \<Rightarrow> Inl e
      | Inr i \<Rightarrow>
          (case convertErrors toLowerCase kindv namev namespacev errs of
             Inl e \<Rightarrow> Inl e
           | Inr is \<Rightarrow> Inr (i # is)))"

text \<open>The body of the outer loop: the issues one finding adds.\<close>

definition convertResult :: "(string \<Rightarrow> string) \<Rightarrow> jsval \<Rightarrow> error + issue list" where
  "convertResult toLowerCase result =
     (case getProp result ''name'' of
        Inl e \<Rightarrow> Inl e
      | Inr rname \<Rightarrow>
          (case splitName rname of
             Inl e \<Rightarrow> Inl e
           | Inr (namespacev, namev) \<Rightarrow>
               (case getProp result ''error'' of
                  Inl e \<Rightarrow> Inl e
                | Inr errs \<Rightarrow>
                    if \<not> truthy errs \<or> \<not> isArray errs then Inr []
                    else (case (errs, getProp result ''kind'') of
                            (JArr es, Inr kindv) \<Rightarrow>
                               convertErrors toLowerCase kindv
                                 (if truthy namev then namev else rname)
                                 namespacev es
                          | (_, Inl e) \<Rightarrow> Inl e
                          | (_, Inr _) \<Rightarrow> Inr []))))"

fun convertResults :: "(string \<Rightarrow> string) \<Rightarrow> jsval list \<Rightarrow> error + issue list" where
  "convertResults toLowerCase [] = Inr []"
| "convertResults toLowerCase (r # rs) =
     (case convertResult toLowerCase r of
        Inl e \<Rightarrow> Inl e
      | Inr is \<Rightarrow>
          (case convertResults toLowerCase rs of
             Inl e \<Rightarrow> Inl e
           | Inr js \<Rightarrow> Inr (is @ js)))"

definition noResults :: "jsval \<Rightarrow> bool" where
  "noResults results = (\<not> truthy results \<or> \<not> isArray results)"

definition convertK8sGPTToIssues :: "(string \<Rightarrow> string) \<Rightarrow> jsval \<Rightarrow> error + issue list" where
  "convertK8sGPTToIssues toLowerCase output =
     (case getProp output ''results'' of
        Inl e \<Rightarrow> Inl e
      | Inr results \<Rightarrow>
          if noResults results then Inr []
          else (case results of JArr rs \<Rightarrow> convertResults toLowerCase rs | _ \<Rightarrow> Inr []))"

section \<open>Invoking the analyzer (k8sgpt-adapter.ts)\<close>

text \<open>
  What \<^verbatim>\<open>execFile\<close> followed by \<^verbatim>\<open>JSON.parse\<close> can do: the promise rejects with an
  error that may carry a \<^verbatim>\<open>code\<close> and has a message (for a command that exits with a
  non-zero status the library's message reads "Command failed: " and the command line),
  or it resolves with the child's standard output, given here as the value
  \<^verbatim>\<open>JSON.parse\<close> reads from it (\<open>None\<close> when it throws a SyntaxError), and the
  standard error text.
\<close>

datatype exec_outcome =
    Rejected "string option" string
  | Resolved "jsval option" string

datatype level = LDebug | LError

text \<open>
  What a run does to the outside, in the order it does it: handing a line to the logger,
  and running the executable with an argument list, with what came back. The state a run
  threads is the world outside (of any type) and the trace of these effects so far; the
  logged lines and the invocations performed are read off the trace.
\<close>

datatype effect =
    Logged level string
  | Invoked "string list" exec_outcome

record 'w sys =
  world :: 'w
  trace :: "effect list"

fun logged :: "effect list \<Rightarrow> (level \<times> string) list" where
  "logged [] = []"
| "logged (Logged l msg # es) = (l, msg) # logged es"
| "logged (Invoked args outcome # es) = logged es"

fun invoked :: "effect list \<Rightarrow> (string list \<times> exec_outcome) list" where
  "invoked [] = []"
| "invoked (Logged l msg # es) = invoked es"
| "invoked (Invoked args outcome # es) = (args, outcome) # invoked es"

definition log :: "'w sys \<Rightarrow> (level \<times> string) list" where
  "log s = logged (trace s)"

definition invocations :: "'w sys \<Rightarrow> (string list \<times> exec_outcome) list" where
  "invocations s = invoked (trace s)"

definition logLine :: "level \<Rightarrow> string \<Rightarrow> 'w sys \<Rightarrow> 'w sys" where
  "logLine l msg s = s\<lparr>trace := trace s @ [Logged l msg]\<rparr>"

definition buildArgs :: "string list option \<Rightarrow> string option \<Rightarrow> string list" where
  "buildArgs filters' namespace' =
     [''analyze'', ''--output=json'']
     @ (case filters' of
          None \<Rightarrow> []
        | Some fs \<Rightarrow> if length fs > 0 then [''--filter='' @ join '','' fs] else [])
     @ (case namespace' of
          None \<Rightarrow> []
        | Some ns \<Rightarrow> if ns \<noteq> [] then [''--namespace='' @ ns] else [])"

definition commandOf :: "string list \<Rightarrow> string" where
  "commandOf args = ''k8sgpt '' @ join '' '' args"

text \<open>
  The \<^verbatim>\<open>catch\<close> block: it logs and throws, a fresh error when the code of the caught
  one is ENOENT, the caught error itself otherwise.
\<close>

definition catchBlock :: "error \<Rightarrow> 'w sys \<Rightarrow> (error + 'a) \<times> 'w sys" where
  "catchBlock e s =
     (if errorCode e = Some ''ENOENT''
      then (Inl NotInstalled,
            logLine LError ''k8sgpt command not found. Please install k8sgpt: https://github.com/k8sgpt-ai/k8sgpt'' s)
      else (Inl e, logLine LError ''Failed to run k8sgpt analysis:'' s))"

definition runK8sGPTAnalysis ::
  "(string \<Rightarrow> string) \<Rightarrow> ('w \<Rightarrow> string list \<Rightarrow> exec_outcome \<times> 'w) \<Rightarrow> string list option
     \<Rightarrow> string option \<Rightarrow> bool \<Rightarrow> 'w sys \<Rightarrow> (error + issue list \<times> string) \<times> 'w sys" where
  "runK8sGPTAnalysis toLowerCase exec filters' namespace' allNamespaces' s =
     (let args = buildArgs filters' namespace';
          command = commandOf args;
          s1 = logLine LDebug (''Running k8sgpt: '' @ command) s;
          (outcome, w) = exec (world s1) args;
          s2 = s1\<lparr>world := w, trace := trace s1 @ [Invoked args outcome]\<rparr>
      in case outcome of
           Rejected code msg \<Rightarrow> catchBlock (ExecError code msg) s2
         | Resolved stdout stderr \<Rightarrow>
             (let s3 = (if stderr \<noteq> [] then logLine LDebug ''k8sgpt stderr:'' s2 else s2)
              in case stdout of
                   None \<Rightarrow> catchBlock SyntaxError s3
                 | Some output \<Rightarrow>
                     (case convertK8sGPTToIssues toLowerCase output of
                        Inl e \<Rightarrow> catchBlock e s3
                      | Inr is \<Rightarrow>
                          (Inr (is, command),
                           if (case getProp output ''results'' of
                                 Inr r \<Rightarrow> noResults r | Inl _ \<Rightarrow> False)
                           then logLine LDebug
                                  ''No results found in k8sgpt output or results is not an array'' s3
                           else s3))))"

section \<open>The orchestrator (analyzer.ts)\<close>

definition AVAILABLE_FILTERS :: "string list" where
  "AVAILABLE_FILTERS =
     [''Pod'', ''Service'', ''Deployment'', ''ReplicaSet'', ''StatefulSet'',
      ''PersistentVolumeClaim'', ''Ingress'', ''Node'', ''CronJob'', ''Job'',
      ''HorizontalPodAutoscaler'', ''NetworkPolicy'', ''MutatingWebhookConfiguration'',
      ''ValidatingWebhookConfiguration'', ''ConfigMap'', ''ClusterExtension'', ''Log'',
      ''GatewayClass'', ''Gateway'', ''HTTPRoute'', ''Storage'', ''Security'',
      ''ClusterCatalog'', ''PodDisruptionBudget'']"

record analyzeOptions =
  namespaces :: "string list option"
  allNamespaces :: bool
  filters :: "string list option"

text \<open>
  Of the kube config the orchestrator reads the current context's name and the current
  cluster's name (\<open>None\<close> when \<^verbatim>\<open>getCurrentCluster()\<close> returns null).
\<close>

record kubeConfig =
  currentContext :: string
  currentCluster :: "string option"

record analysisResult =
  timestamp :: string
  cluster :: string
  issues :: "issue list"
  summary :: summary
  commands :: "string list"

text \<open>The loop over the listed namespaces; a throwing invocation ends it and the run.\<close>

fun analyzeNamespaces ::
  "(string \<Rightarrow> string) \<Rightarrow> ('w \<Rightarrow> string list \<Rightarrow> exec_outcome \<times> 'w) \<Rightarrow> string list
     \<Rightarrow> string list \<Rightarrow> issue list \<times> string list \<Rightarrow> 'w sys
     \<Rightarrow> (error + issue list \<times> string list) \<times> 'w sys" where
  "analyzeNamespaces toLowerCase exec fs [] acc s = (Inr acc, s)"
| "analyzeNamespaces toLowerCase exec fs (ns # rest) (allIssues, cmds) s =
     (case runK8sGPTAnalysis toLowerCase exec (Some fs) (Some ns) False s of
        (Inl e, s') \<Rightarrow> (Inl e, s')
      | (Inr (is, c), s') \<Rightarrow>
          analyzeNamespaces toLowerCase exec fs rest (allIssues @ is, cmds @ [c]) s')"

definition analyzeAll ::
  "(string \<Rightarrow> string) \<Rightarrow> ('w \<Rightarrow> string list \<Rightarrow> exec_outcome \<times> 'w) \<Rightarrow> string list \<Rightarrow> 'w sys
     \<Rightarrow> (error + issue list \<times> string list) \<times> 'w sys" where
  "analyzeAll toLowerCase exec fs s =
     (case runK8sGPTAnalysis toLowerCase exec (Some fs) None True s of
        (Inl e, s') \<Rightarrow> (Inl e, s')
      | (Inr (is, c), s') \<Rightarrow> (Inr (is, [c]), s'))"

definition activeFilters :: "analyzeOptions \<Rightarrow> string list" where
  "activeFilters options =
     (case filters options of
        None \<Rightarrow> AVAILABLE_FILTERS
      | Some fs \<Rightarrow> if length fs > 0 then fs else AVAILABLE_FILTERS)"

definition clusterName :: "kubeConfig \<Rightarrow> string" where
  "clusterName kc =
     (case currentCluster kc of
        None \<Rightarrow> currentContext kc
      | Some n \<Rightarrow> if n \<noteq> [] then n else currentContext kc)"

definition analyze ::
  "(string \<Rightarrow> string) \<Rightarrow> ('w \<Rightarrow> string list \<Rightarrow> exec_outcome \<times> 'w) \<Rightarrow> ('w \<Rightarrow> string)
     \<Rightarrow> kubeConfig \<Rightarrow> analyzeOptions \<Rightarrow> 'w sys \<Rightarrow> (error + analysisResult) \<times> 'w sys" where
  "analyze toLowerCase exec clock kc options s =
     (let fs = activeFilters options;
          scanned =
            (if allNamespaces options then analyzeAll toLowerCase exec fs s
             else (case namespaces options of
                     Some (n # ns) \<Rightarrow>
                       analyzeNamespaces toLowerCase exec fs (n # ns) ([], []) s
                   | _ \<Rightarrow> analyzeAll toLowerCase exec fs s))
      in case scanned of
           (Inl e, s') \<Rightarrow> (Inl e, s')
         | (Inr (allIssues, cmds), s') \<Rightarrow>
             (Inr \<lparr> timestamp = clock (world s'),
                    cluster = clusterName kc,
                    issues = allIssues,
                    summary = summarizeIssues allIssues,
                    commands = cmds \<rparr>, s'))"

text \<open>
  What one recorded invocation comes to for the caller of \<^verbatim>\<open>runK8sGPTAnalysis\<close>: the
  error thrown, or the issues of the normalised output. \<open>issuesOf\<close> are the issues it
  contributed, none when it failed.
\<close>

definition outcomeResult :: "(string \<Rightarrow> string) \<Rightarrow> exec_outcome \<Rightarrow> error + issue list" where
  "outcomeResult toLowerCase outcome =
     (case outcome of
        Rejected code msg \<Rightarrow>
          Inl (if code = Some ''ENOENT'' then NotInstalled else ExecError code msg)
      | Resolved None stderr \<Rightarrow> Inl SyntaxError
      | Resolved (Some output) stderr \<Rightarrow> convertK8sGPTToIssues toLowerCase output)"

definition issuesOf :: "(string \<Rightarrow> string) \<Rightarrow> exec_outcome \<Rightarrow> issue list" where
  "issuesOf toLowerCase outcome =
     (case outcome of
        Resolved (Some output) stderr \<Rightarrow>
          (case convertK8sGPTToIssues toLowerCase output of Inr is \<Rightarrow> is | Inl e \<Rightarrow> [])
      | _ \<Rightarrow> [])"

section \<open>Issues from a pod's events (analyzePods, analyzer.ts)\<close>

text \<open>
  A \<^verbatim>\<open>Date\<close> holds a time value in milliseconds or is an Invalid Date, whose
  \<^verbatim>\<open>getTime()\<close> is NaN; every comparison with NaN is false.
\<close>

datatype date = DateMs int | InvalidDate

fun getTime :: "date \<Rightarrow> int option" where
  "getTime (DateMs t) = Some t"
| "getTime InvalidDate = None"

record event =
  type :: "string option"
  reason :: "string option"
  message :: "string option"
  lastTimestamp :: "date option"

text \<open>
  The callback of the first filter. \<^verbatim>\<open>Date.now()\<close> is read in it for each event; the
  readings are taken as the one instant \<open>now\<close>.
\<close>

definition isRecent :: "int \<Rightarrow> event \<Rightarrow> bool" where
  "isRecent now ev =
     (case lastTimestamp ev of
        None \<Rightarrow> False
      | Some d \<Rightarrow>
          (case getTime d of
             None \<Rightarrow> False
           | Some eventTime \<Rightarrow> (let oneHourAgo = now - 60 * 60 * 1000 in eventTime > oneHourAgo)))"

definition isErrorEvent :: "event \<Rightarrow> bool" where
  "isErrorEvent ev = (type ev = Some ''Warning'' \<or> type ev = Some ''Error'')"

text \<open>A value inside a template literal: an absent one prints as \<^verbatim>\<open>undefined\<close>.\<close>

definition interpolate :: "string option \<Rightarrow> string" where
  "interpolate v = (case v of None \<Rightarrow> ''undefined'' | Some s \<Rightarrow> s)"

definition eventKey :: "event \<Rightarrow> string" where
  "eventKey ev = interpolate (reason ev) @ ''-'' @ interpolate (message ev)"

text \<open>
  A \<^verbatim>\<open>Map\<close> keeps its keys in insertion order, and \<^verbatim>\<open>set\<close> on a present key replaces
  the value where it stands: an association list with distinct keys.
\<close>

definition Map_has :: "('k \<times> 'v) list \<Rightarrow> 'k \<Rightarrow> bool" where
  "Map_has m k = (k \<in> set (map fst m))"

definition Map_get :: "('k \<times> 'v) list \<Rightarrow> 'k \<Rightarrow> 'v option" where
  "Map_get m k = map_of m k"

fun Map_set :: "('k \<times> 'v) list \<Rightarrow> 'k \<Rightarrow> 'v \<Rightarrow> ('k \<times> 'v) list" where
  "Map_set [] k v = [(k, v)]"
| "Map_set ((k', v') # m) k v =
     (if k' = k then (k, v) # m else (k', v') # Map_set m k v)"

definition Map_values :: "('k \<times> 'v) list \<Rightarrow> 'v list" where
  "Map_values m = map snd m"

text \<open>
  The second half of the loop's condition: both dates are present and the event's is
  the later.
\<close>

definition laterThan :: "event \<Rightarrow> event \<Rightarrow> bool" where
  "laterThan ev old =
     (case (lastTimestamp ev, lastTimestamp old) of
        (Some d, Some d') \<Rightarrow>
          (case (getTime d, getTime d') of
             (Some t, Some t') \<Rightarrow> t > t'
           | _ \<Rightarrow> False)
      | _ \<Rightarrow> False)"

fun uniqueEvents :: "event list \<Rightarrow> (string \<times> event) list \<Rightarrow> (string \<times> event) list" where
  "uniqueEvents [] m = m"
| "uniqueEvents (ev # evs) m =
     (let key = eventKey ev in
      if \<not> Map_has m key \<or>
         (case Map_get m key of None \<Rightarrow> False | Some old \<Rightarrow> laterThan ev old)
      then uniqueEvents evs (Map_set m key ev)
      else uniqueEvents evs m)"

definition orElse :: "string option \<Rightarrow> string \<Rightarrow> string" where
  "orElse v d = (case v of None \<Rightarrow> d | Some s \<Rightarrow> if s \<noteq> [] then s else d)"

definition eventIssue :: "string \<Rightarrow> string \<Rightarrow> event \<Rightarrow> issue" where
  "eventIssue podName podNamespace ev =
     \<lparr> kind = JStr ''Pod'',
       name = JStr podName,
       namespace = JStr podNamespace,
       problem = JStr (orElse (reason ev) ''Unknown'' @ '': '' @
                       orElse (message ev) ''No details available''),
       solution = JStr ''Check pod logs and events for more details'',
       severity = (if type ev = Some ''Error'' then Critical else Warning) \<rparr>"

text \<open>
  The events the two filters keep, and the block \<^verbatim>\<open>if (podNamespace) { ... }\<close> of the
  loop over the pods: \<open>events\<close> is what \<^verbatim>\<open>getEventsForPod\<close> returned for the pod.
\<close>

definition errorEvents :: "int \<Rightarrow> event list \<Rightarrow> event list" where
  "errorEvents now events = filter isErrorEvent (filter (isRecent now) events)"

definition podEventIssues :: "int \<Rightarrow> string \<Rightarrow> string option \<Rightarrow> event list \<Rightarrow> issue list" where
  "podEventIssues now podName podNamespace events =
     (case podNamespace of
        None \<Rightarrow> []
      | Some ns \<Rightarrow>
          if ns \<noteq> []
          then map (eventIssue podName ns) (Map_values (uniqueEvents (errorEvents now events) []))
          else [])"

section \<open>Auxiliary notions\<close>

text \<open>
  The composite name as the specification splits it, at the first "/", and the findings
  that carry the types the interface \<^verbatim>\<open>K8sGPTResult\<close> declares for the fields the
  normaliser calls methods on: a string \<^verbatim>\<open>name\<close>, and a string \<^verbatim>\<open>Text\<close> in every
  entry of an \<^verbatim>\<open>error\<close> array.
\<close>

definition beforeFirstSlash :: "string \<Rightarrow> string" where
  "beforeFirstSlash s = takeWhile (\<lambda>c. c \<noteq> CHR ''/'') s"

definition afterFirstSlash :: "string \<Rightarrow> string" where
  "afterFirstSlash s = tl (dropWhile (\<lambda>c. c \<noteq> CHR ''/'') s)"

definition slashes :: "string \<Rightarrow> nat" where
  "slashes s = length (filter (\<lambda>c. c = CHR ''/'') s)"




text \<open>
  The invocations performed between two states, whether a recorded invocation succeeded
  (the executable ran, its output parsed and was normalised without an exception), and
  the three branches of \<^verbatim>\<open>analyze\<close> on their own.
\<close>

definition performed :: "'w sys \<Rightarrow> 'w sys \<Rightarrow> (string list \<times> exec_outcome) list" where
  "performed s s' = drop (length (invocations s)) (invocations s')"

definition scan ::
  "(string \<Rightarrow> string) \<Rightarrow> ('w \<Rightarrow> string list \<Rightarrow> exec_outcome \<times> 'w) \<Rightarrow> analyzeOptions \<Rightarrow> 'w sys
     \<Rightarrow> (error + issue list \<times> string list) \<times> 'w sys" where
  "scan toLowerCase exec options s =
     (if allNamespaces options then analyzeAll toLowerCase exec (activeFilters options) s
      else (case namespaces options of
              Some (n # ns) \<Rightarrow>
                analyzeNamespaces toLowerCase exec (activeFilters options) (n # ns) ([], []) s
            | _ \<Rightarrow> analyzeAll toLowerCase exec (activeFilters options) s))"

definition succeeded :: "(string \<Rightarrow> string) \<Rightarrow> exec_outcome \<Rightarrow> bool" where
  "succeeded toLowerCase outcome =
     (case outcome of
        Resolved (Some output) stderr \<Rightarrow>
          (case convertK8sGPTToIssues toLowerCase output of Inr is \<Rightarrow> True | Inl e \<Rightarrow> False)
      | _ \<Rightarrow> False)"

text \<open>
  Notions for the events of a pod: the (reason, message) pair the specification keys on,
  the time value of a dated event, the events the two filters keep, the events that
  survive the de-duplication, and lists free of key collisions (no two kept events
  with different pairs print the same key string).
\<close>

definition pairOf :: "event \<Rightarrow> string option \<times> string option" where
  "pairOf ev = (reason ev, message ev)"

definition eventTime :: "event \<Rightarrow> int" where
  "eventTime ev = (case lastTimestamp ev of Some (DateMs t) \<Rightarrow> t | _ \<Rightarrow> 0)"

definition dated :: "event \<Rightarrow> bool" where
  "dated ev = (case lastTimestamp ev of Some (DateMs t) \<Rightarrow> True | _ \<Rightarrow> False)"

definition qualifies :: "int \<Rightarrow> event \<Rightarrow> bool" where
  "qualifies now ev =
     ((type ev = Some ''Warning'' \<or> type ev = Some ''Error'') \<and>
      dated ev \<and> now - 3600000 < eventTime ev)"

definition representatives :: "int \<Rightarrow> event list \<Rightarrow> event list" where
  "representatives now events = Map_values (uniqueEvents (errorEvents now events) [])"

text \<open>The condition of the de-duplication loop, and the shape its map keeps.\<close>

definition replaces :: "(string \<times> event) list \<Rightarrow> event \<Rightarrow> bool" where
  "replaces m ev =
     (\<not> Map_has m (eventKey ev) \<or>
      (case Map_get m (eventKey ev) of None \<Rightarrow> False | Some old \<Rightarrow> laterThan ev old))"

definition wellKept :: "(string \<times> event) list \<Rightarrow> bool" where
  "wellKept m = (distinct (map fst m) \<and> (\<forall>p \<in> set m. eventKey (snd p) = fst p \<and> dated (snd p)))"

definition collisionFree :: "event list \<Rightarrow> bool" where
  "collisionFree evs =
     (\<forall>a \<in> set evs. \<forall>b \<in> set evs. eventKey a = eventKey b \<longrightarrow> pairOf a = pairOf b)"

section \<open>Example environments\<close>

text \<open>
  An analyzer that is not installed, an analyzer that reports one pending pod whatever
  it is asked, an initial state, two kube configs and three requests.
\<close>

definition execMissing :: "unit \<Rightarrow> string list \<Rightarrow> exec_outcome \<times> unit" where
  "execMissing w args = (Rejected (Some ''ENOENT'') ''spawn k8sgpt ENOENT'', w)"

definition execReport :: "unit \<Rightarrow> string list \<Rightarrow> exec_outcome \<times> unit" where
  "execReport w args =
     (Resolved (Some (JObj [(''results'', JArr
        [JObj [(''kind'', JStr ''Pod''), (''name'', JStr ''default/api''),
               (''error'', JArr [JObj [(''Text'', JStr ''Pod Pending'')]])]])])) [], w)"

definition sys0 :: "unit sys" where
  "sys0 = \<lparr> world = (), trace = [] \<rparr>"

definition kcDev :: kubeConfig where
  "kcDev = \<lparr> currentContext = ''dev'', currentCluster = None \<rparr>"

definition bothScopes :: analyzeOptions where
  "bothScopes = \<lparr> namespaces = Some [''a'', ''b''], allNamespaces = True, filters = Some [''Pod''] \<rparr>"

definition listedScopes :: analyzeOptions where
  "listedScopes = \<lparr> namespaces = Some [''a'', ''b''], allNamespaces = False, filters = Some [''Pod''] \<rparr>"

definition pendingIssue :: issue where
  "pendingIssue = \<lparr> kind = JStr ''Pod'', name = JStr ''api'', namespace = JStr ''default'',
      problem = JStr ''Pod Pending'',
      solution = JStr ''Check k8sgpt documentation for more details'',
      severity = Warning \<rparr>"

definition kcProd :: kubeConfig where
  "kcProd = \<lparr> currentContext = ''prod'', currentCluster = Some ''east'' \<rparr>"

definition otherScopes :: analyzeOptions where
  "otherScopes = \<lparr> namespaces = Some [''x'', ''y''], allNamespaces = False,
                   filters = Some [''Service''] \<rparr>"

text \<open>
  Events of one pod, checked at time 7200000 (two hours after the epoch): a back-off
  warning seen two hours, thirty minutes and five minutes ago, a failure, two warnings
  whose different pairs print the key "node-not-ready", a warning and an error of the
  same pair and time, and an error without a timestamp.
\<close>

definition evBackOffOld :: event where
  "evBackOffOld = \<lparr> type = Some ''Warning'', reason = Some ''BackOff'',
      message = Some ''Back-off restarting failed container'',
      lastTimestamp = Some (DateMs 0) \<rparr>"

definition evBackOff30 :: event where
  "evBackOff30 = \<lparr> type = Some ''Warning'', reason = Some ''BackOff'',
      message = Some ''Back-off restarting failed container'',
      lastTimestamp = Some (DateMs 5400000) \<rparr>"

definition evBackOff5 :: event where
  "evBackOff5 = \<lparr> type = Some ''Warning'', reason = Some ''BackOff'',
      message = Some ''Back-off restarting failed container'',
      lastTimestamp = Some (DateMs 6900000) \<rparr>"

definition evFailed :: event where
  "evFailed = \<lparr> type = Some ''Error'', reason = Some ''Failed'',
      message = Some ''ImagePullBackOff'', lastTimestamp = Some (DateMs 6600000) \<rparr>"

definition evNodeA :: event where
  "evNodeA = \<lparr> type = Some ''Warning'', reason = Some ''node-not'', message = Some ''ready'',
      lastTimestamp = Some (DateMs 6600000) \<rparr>"

definition evNodeB :: event where
  "evNodeB = \<lparr> type = Some ''Warning'', reason = Some ''node'', message = Some ''not-ready'',
      lastTimestamp = Some (DateMs 6600000) \<rparr>"

definition evProbeW :: event where
  "evProbeW = \<lparr> type = Some ''Warning'', reason = Some ''Unhealthy'',
      message = Some ''probe failed'', lastTimestamp = Some (DateMs 6600000) \<rparr>"

definition evProbeE :: event where
  "evProbeE = \<lparr> type = Some ''Error'', reason = Some ''Unhealthy'',
      message = Some ''probe failed'', lastTimestamp = Some (DateMs 6600000) \<rparr>"

definition evUndated :: event where
  "evUndated = \<lparr> type = Some ''Error'', reason = Some ''Failed'',
      message = Some ''ImagePullBackOff'', lastTimestamp = None \<rparr>"

section \<open>Properties of the summary\<close>

lemma severity_partition:
  "length (filter (\<lambda>i. severity i = Critical) xs) +
   length (filter (\<lambda>i. severity i = Warning) xs) +
   length (filter (\<lambda>i. severity i = Info) xs) = length xs"
proof (induction xs)
  case Nil
  show ?case by simp
next
  case (Cons x xs)
  then show ?case by (cases "severity x") simp_all
qed

text \<open>
  C1. For every issue list, the summary's total is the length of the list, the critical,
  warning and info counts are the numbers of issues of that severity, and the three
  counts add up to the total.
\<close>

theorem summarizeIssues_consistent:
  "total (summarizeIssues L) = length L \<and>
   critical (summarizeIssues L) = length (filter (\<lambda>i. severity i = Critical) L) \<and>
   warning (summarizeIssues L) = length (filter (\<lambda>i. severity i = Warning) L) \<and>
   info (summarizeIssues L) = length (filter (\<lambda>i. severity i = Info) L) \<and>
   critical (summarizeIssues L) + warning (summarizeIssues L) + info (summarizeIssues L)
     = total (summarizeIssues L)"
  by (simp add: summarizeIssues_def severity_partition)

theorem summarizeIssues_consistent_witness:
  "total (summarizeIssues
     [\<lparr> kind = JStr ''Pod'', name = JStr ''api'', namespace = JStr ''prod'',
        problem = JStr ''crash loop'', solution = JUndefined, severity = Critical \<rparr>,
      \<lparr> kind = JStr ''Service'', name = JStr ''lb'', namespace = JUndefined,
        problem = JStr ''Pod Pending'', solution = JUndefined, severity = Warning \<rparr>]) = 2"
  using summarizeIssues_consistent
    [of "[\<lparr> kind = JStr ''Pod'', name = JStr ''api'', namespace = JStr ''prod'',
        problem = JStr ''crash loop'', solution = JUndefined, severity = Critical \<rparr>,
      \<lparr> kind = JStr ''Service'', name = JStr ''lb'', namespace = JUndefined,
        problem = JStr ''Pod Pending'', solution = JUndefined, severity = Warning \<rparr>]"]
  by simp

section \<open>Properties of the severity classifier\<close>

lemma startsWith_iff: "startsWith s p \<longleftrightarrow> (\<exists>post. s = p @ post)"
  by (induction s p rule: startsWith.induct) auto

lemma includes_str_iff: "includes_str s sub \<longleftrightarrow> (\<exists>pre post. s = pre @ sub @ post)"
proof (induction s)
  case Nil
  show ?case by auto
next
  case (Cons c cs)
  show ?case
  proof
    assume "includes_str (c # cs) sub"
    then consider "startsWith (c # cs) sub" | "includes_str cs sub" by auto
    then show "\<exists>pre post. c # cs = pre @ sub @ post"
    proof cases
      case 1
      then obtain post where "c # cs = sub @ post" by (auto simp: startsWith_iff)
      then have "c # cs = [] @ sub @ post" by simp
      then show ?thesis by blast
    next
      case 2
      then obtain pre post where "cs = pre @ sub @ post" using Cons.IH by blast
      then have "c # cs = (c # pre) @ sub @ post" by simp
      then show ?thesis by blast
    qed
  next
    assume "\<exists>pre post. c # cs = pre @ sub @ post"
    then obtain pre post where eq: "c # cs = pre @ sub @ post" by blast
    show "includes_str (c # cs) sub"
    proof (cases pre)
      case Nil
      with eq have "startsWith (c # cs) sub" by (auto simp: startsWith_iff)
      then show ?thesis by simp
    next
      case (Cons p ps)
      with eq have "cs = ps @ sub @ post" by simp
      then have "includes_str cs sub" using Cons.IH by blast
      then show ?thesis by simp
    qed
  qed
qed

lemma includes_any:
  "(\<exists>kw \<in> set kws. includes_str (toLowerCase t) kw) = contains_any toLowerCase kws t"
  by (simp add: contains_any_def includes_str_iff)

lemma determineSeverity_refines: "determineSeverity toLowerCase t = classify_spec toLowerCase t"
proof -
  have c: "contains_any toLowerCase critical_triggers t \<longleftrightarrow>
      includes_str (toLowerCase t) ''crash'' \<or> includes_str (toLowerCase t) ''failed'' \<or>
      includes_str (toLowerCase t) ''error'' \<or>
      includes_str (toLowerCase t) ''deadline exceeded'' \<or>
      includes_str (toLowerCase t) ''oomkilled''"
    unfolding includes_any [symmetric] critical_triggers_def by simp
  have w: "contains_any toLowerCase warning_triggers t \<longleftrightarrow>
      includes_str (toLowerCase t) ''warning'' \<or> includes_str (toLowerCase t) ''pending'' \<or>
      includes_str (toLowerCase t) ''unschedulable''"
    unfolding includes_any [symmetric] warning_triggers_def by simp
  show ?thesis
    unfolding determineSeverity_def classify_spec_def Let_def c w by simp
qed

lemma determineSeverity_case_insensitive:
  "toLowerCase t' = toLowerCase t \<Longrightarrow> determineSeverity toLowerCase t' = determineSeverity toLowerCase t"
  by (simp add: determineSeverity_def)

lemma determineSeverity_cong:
  "toLowerCase s = g s \<Longrightarrow> determineSeverity toLowerCase s = determineSeverity g s"
  by (simp add: determineSeverity_def)

lemma determineSeverity_ascii:
  assumes "lowersASCII toLowerCase" "isASCII s"
  shows "determineSeverity toLowerCase s = determineSeverity asciiLowerCase s"
proof -
  from assms have "toLowerCase s = asciiLowerCase s" by (simp add: lowersASCII_def)
  then show ?thesis by (rule determineSeverity_cong)
qed

lemma lowersASCII_ascii: "lowersASCII asciiLowerCase"
  by (simp add: lowersASCII_def)

text \<open>
  The Kelvin sign (the bytes E2 84 AA in UTF-8) is no ASCII letter, and the library
  lower-cases it to the letter k: with any such \<open>toLowerCase\<close> the text below is critical.
\<close>

lemma determineSeverity_kelvin_sign:
  assumes "toLowerCase (''OOM'' @ [char_of (226 :: nat), char_of (132 :: nat), char_of (170 :: nat)]
             @ ''illed container'') = ''oomkilled container''"
  shows "determineSeverity toLowerCase
           (''OOM'' @ [char_of (226 :: nat), char_of (132 :: nat), char_of (170 :: nat)]
              @ ''illed container'') = Critical"
proof -
  have "includes_str ''oomkilled container'' ''oomkilled''" by code_simp
  with assms show ?thesis by (simp add: determineSeverity_def)
qed

text \<open>
  C2. The severity classifier returns, for every text (the empty one included), exactly
  one of critical, warning and info, and it is the one the specification names: critical
  when the lower-cased text contains one of "crash", "failed", "error",
  "deadline exceeded", "oomkilled", otherwise warning when it contains one of "warning",
  "pending", "unschedulable", otherwise info; this for whatever function the library's
  \<^verbatim>\<open>toLowerCase\<close> is. Two texts with the same lower-cased form classify alike, so do
  two ASCII texts that differ in the case of their letters only. With a \<^verbatim>\<open>toLowerCase\<close>
  that lower-cases ASCII texts as every JavaScript engine does, "OOMKilled container"
  and "crash loop" are critical, "Pod Pending" is a warning, and the empty text and a
  text with no keyword are info.
\<close>

theorem determineSeverity_classifies:
  "determineSeverity toLowerCase t = classify_spec toLowerCase t \<and>
   (determineSeverity toLowerCase t = Critical \<or> determineSeverity toLowerCase t = Warning \<or>
    determineSeverity toLowerCase t = Info) \<and>
   (toLowerCase t' = toLowerCase t
      \<longrightarrow> determineSeverity toLowerCase t' = determineSeverity toLowerCase t) \<and>
   (\<not> contains_any toLowerCase critical_triggers t \<and>
    \<not> contains_any toLowerCase warning_triggers t
      \<longrightarrow> determineSeverity toLowerCase t = Info) \<and>
   (lowersASCII toLowerCase \<longrightarrow>
      (isASCII t \<and> isASCII t' \<and> asciiLowerCase t' = asciiLowerCase t
         \<longrightarrow> determineSeverity toLowerCase t' = determineSeverity toLowerCase t) \<and>
      determineSeverity toLowerCase ''OOMKilled container'' = Critical \<and>
      determineSeverity toLowerCase ''crash loop'' = Critical \<and>
      determineSeverity toLowerCase ''Pod Pending'' = Warning \<and>
      determineSeverity toLowerCase [] = Info \<and>
      determineSeverity toLowerCase ''all replicas are healthy'' = Info)"
proof -
  have total: "determineSeverity toLowerCase t = Critical \<or>
      determineSeverity toLowerCase t = Warning \<or> determineSeverity toLowerCase t = Info"
    by (cases "determineSeverity toLowerCase t") simp_all
  have none: "\<not> contains_any toLowerCase critical_triggers t \<and>
      \<not> contains_any toLowerCase warning_triggers t
      \<longrightarrow> determineSeverity toLowerCase t = Info"
    by (simp add: determineSeverity_refines classify_spec_def)
  have same: "toLowerCase t' = toLowerCase t
      \<longrightarrow> determineSeverity toLowerCase t' = determineSeverity toLowerCase t"
    using determineSeverity_case_insensitive by blast
  have ascii: "(isASCII t \<and> isASCII t' \<and> asciiLowerCase t' = asciiLowerCase t
         \<longrightarrow> determineSeverity toLowerCase t' = determineSeverity toLowerCase t) \<and>
      determineSeverity toLowerCase ''OOMKilled container'' = Critical \<and>
      determineSeverity toLowerCase ''crash loop'' = Critical \<and>
      determineSeverity toLowerCase ''Pod Pending'' = Warning \<and>
      determineSeverity toLowerCase [] = Info \<and>
      determineSeverity toLowerCase ''all replicas are healthy'' = Info"
    if low: "lowersASCII toLowerCase"
  proof -
    have i1: "isASCII ''OOMKilled container''" by code_simp
    have i2: "isASCII ''crash loop''" by code_simp
    have i3: "isASCII ''Pod Pending''" by code_simp
    have i4: "isASCII []" by code_simp
    have i5: "isASCII ''all replicas are healthy''" by code_simp
    have e1: "determineSeverity asciiLowerCase ''OOMKilled container'' = Critical" by code_simp
    have e2: "determineSeverity asciiLowerCase ''crash loop'' = Critical" by code_simp
    have e3: "determineSeverity asciiLowerCase ''Pod Pending'' = Warning" by code_simp
    have e4: "determineSeverity asciiLowerCase [] = Info" by code_simp
    have e5: "determineSeverity asciiLowerCase ''all replicas are healthy'' = Info" by code_simp
    have c: "determineSeverity toLowerCase t' = determineSeverity toLowerCase t"
      if "isASCII t" "isASCII t'" "asciiLowerCase t' = asciiLowerCase t"
    proof -
      from low that have "toLowerCase t' = toLowerCase t" by (simp add: lowersASCII_def)
      then show ?thesis by (rule determineSeverity_case_insensitive)
    qed
    from c e1 e2 e3 e4 e5
      determineSeverity_ascii [OF low i1] determineSeverity_ascii [OF low i2]
      determineSeverity_ascii [OF low i3] determineSeverity_ascii [OF low i4]
      determineSeverity_ascii [OF low i5]
    show ?thesis by simp
  qed
  from determineSeverity_refines total same none ascii show ?thesis by blast
qed

theorem determineSeverity_classifies_witness:
  "classify_spec asciiLowerCase ''Back-off pulling image'' = Info \<and>
   determineSeverity asciiLowerCase ''POD PENDING''
     = determineSeverity asciiLowerCase ''Pod Pending'' \<and>
   determineSeverity asciiLowerCase ''OOMKilled container'' = Critical \<and>
   determineSeverity asciiLowerCase ''Pod Pending'' = Warning"
proof -
  have a: "determineSeverity asciiLowerCase ''Back-off pulling image'' = Info" by code_simp
  have b: "asciiLowerCase ''POD PENDING'' = asciiLowerCase ''Pod Pending''" by code_simp
  from determineSeverity_classifies
    [where toLowerCase = asciiLowerCase and t = "''Back-off pulling image''"] a
  have c: "classify_spec asciiLowerCase ''Back-off pulling image'' = Info" by simp
  note w = determineSeverity_classifies
    [where toLowerCase = asciiLowerCase and t = "''Pod Pending''" and t' = "''POD PENDING''"]
  from w b have d: "determineSeverity asciiLowerCase ''POD PENDING''
      = determineSeverity asciiLowerCase ''Pod Pending''" by blast
  from w lowersASCII_ascii
  have e: "determineSeverity asciiLowerCase ''OOMKilled container'' = Critical \<and>
      determineSeverity asciiLowerCase ''Pod Pending'' = Warning" by blast
  from c d e show ?thesis by blast
qed
section \<open>Properties of the normaliser\<close>

lemma includes_slash: "includes_str s ''/'' \<longleftrightarrow> CHR ''/'' \<in> set s"
  by (induction s) auto

lemma split_str_nonempty: "split_str c s \<noteq> []"
  by (induction s) (auto split: list.splits)

lemma split_str_none: "c \<notin> set s \<Longrightarrow> split_str c s = [s]"
  by (induction s) auto

lemma split_str_first: "c \<notin> set a \<Longrightarrow> split_str c (a @ c # b) = a # split_str c b"
  by (induction a) auto

lemma splitName_no_slash:
  "CHR ''/'' \<notin> set s \<Longrightarrow> splitName (JStr s) = Inr (JUndefined, JStr s)"
  by (simp add: includes_slash)

lemma splitName_one_slash:
  assumes "CHR ''/'' \<notin> set a" "CHR ''/'' \<notin> set b"
  shows "splitName (JStr (a @ ''/'' @ b)) = Inr (JStr a, JStr b)"
  using assms
  by (simp add: includes_slash split_str_first split_str_none component_def Let_def)

lemma convertErrors_fields:
  "convertErrors toLowerCase k n ns es = Inr is \<Longrightarrow> i \<in> set is \<Longrightarrow>
     kind i = k \<and> name i = n \<and> namespace i = ns"
proof (induction es arbitrary: "is")
  case Nil
  then show ?case by simp
next
  case (Cons e es)
  then show ?case
    by (auto simp: convertError_def split: sum.splits jsval.splits)
qed

lemma convertResult_fields:
  assumes "getProp result ''name'' = Inr rname" "splitName rname = Inr (ns, n)"
    "convertResult toLowerCase result = Inr is" "i \<in> set is"
  shows "namespace i = ns \<and> name i = (if truthy n then n else rname)"
  using assms
  by (auto simp: convertResult_def split: sum.splits jsval.splits if_splits
      dest: convertErrors_fields)







lemma first_slash_decomp:
  assumes "CHR ''/'' \<in> set s"
  shows "s = beforeFirstSlash s @ ''/'' @ afterFirstSlash s"
proof -
  let ?d = "dropWhile (\<lambda>c. c \<noteq> CHR ''/'') s"
  from assms have ne: "?d \<noteq> []" by simp
  then have "hd ?d = CHR ''/''" using hd_dropWhile [of "\<lambda>c. c \<noteq> CHR ''/''" s] by simp
  with ne have "?d = CHR ''/'' # tl ?d" by (cases ?d) simp_all
  then have "takeWhile (\<lambda>c. c \<noteq> CHR ''/'') s @ CHR ''/'' # tl ?d = s"
    using takeWhile_dropWhile_id [of "\<lambda>c. c \<noteq> CHR ''/''" s] by simp
  then show ?thesis by (simp add: beforeFirstSlash_def afterFirstSlash_def)
qed

lemma before_no_slash: "CHR ''/'' \<notin> set (beforeFirstSlash s)"
  unfolding beforeFirstSlash_def by (induction s) auto

lemma slashes_zero: "slashes s = 0 \<longleftrightarrow> CHR ''/'' \<notin> set s"
  unfolding slashes_def by (induction s) auto

lemma after_no_slash:
  assumes "CHR ''/'' \<in> set s" "slashes s \<le> 1"
  shows "CHR ''/'' \<notin> set (afterFirstSlash s)"
proof -
  have "slashes (beforeFirstSlash s @ ''/'' @ afterFirstSlash s)
      = slashes (beforeFirstSlash s) + 1 + slashes (afterFirstSlash s)"
    by (simp add: slashes_def)
  then have "slashes s = slashes (beforeFirstSlash s) + 1 + slashes (afterFirstSlash s)"
    using first_slash_decomp [OF assms(1)] by simp
  with assms(2) have "slashes (afterFirstSlash s) = 0" by simp
  then show ?thesis by (simp add: slashes_zero)
qed

text \<open>
  C5 (as amended). For every finding whose composite name is a string with at most one
  "/", every issue of the finding has as namespace the part before the "/" and as name
  the part after it; when nothing follows the "/", the name is the whole composite
  string; when there is no "/", the namespace is absent and the name is the whole
  string. So "kube-system/coredns-abc" gives namespace "kube-system" and name
  "coredns-abc", and "my-node" gives no namespace and name "my-node".
\<close>

theorem convertResult_name_split:
  assumes "getProp result ''name'' = Inr (JStr s)" "slashes s \<le> 1"
    "convertResult toLowerCase result = Inr is" "i \<in> set is"
  shows "namespace i = (if CHR ''/'' \<in> set s then JStr (beforeFirstSlash s) else JUndefined) \<and>
         name i = (if CHR ''/'' \<in> set s \<and> afterFirstSlash s \<noteq> []
                   then JStr (afterFirstSlash s) else JStr s)"
proof (cases "CHR ''/'' \<in> set s")
  case False
  then have "splitName (JStr s) = Inr (JUndefined, JStr s)" by (rule splitName_no_slash)
  from convertResult_fields [OF assms(1) this assms(3,4)] False show ?thesis by simp
next
  case True
  then have "s = beforeFirstSlash s @ ''/'' @ afterFirstSlash s" by (rule first_slash_decomp)
  moreover have "splitName (JStr (beforeFirstSlash s @ ''/'' @ afterFirstSlash s))
      = Inr (JStr (beforeFirstSlash s), JStr (afterFirstSlash s))"
    using before_no_slash after_no_slash [OF True assms(2)] by (rule splitName_one_slash)
  ultimately have "splitName (JStr s) = Inr (JStr (beforeFirstSlash s), JStr (afterFirstSlash s))"
    by simp
  from convertResult_fields [OF assms(1) this assms(3,4)] True show ?thesis by simp
qed

theorem convertResult_name_split_witness:
  "convertResult asciiLowerCase (JObj [(''kind'', JStr ''Pod''), (''name'', JStr ''kube-system/coredns-abc''),
       (''error'', JArr [JObj [(''Text'', JStr ''crash loop'')]])])
     = Inr [\<lparr> kind = JStr ''Pod'', name = JStr ''coredns-abc'',
              namespace = JStr ''kube-system'', problem = JStr ''crash loop'',
              solution = JStr ''Check k8sgpt documentation for more details'',
              severity = Critical \<rparr>] \<and>
   JStr ''kube-system'' = JStr (beforeFirstSlash ''kube-system/coredns-abc'') \<and>
   JStr ''coredns-abc'' = JStr (afterFirstSlash ''kube-system/coredns-abc'')"
proof -
  let ?r = "JObj [(''kind'', JStr ''Pod''), (''name'', JStr ''kube-system/coredns-abc''),
       (''error'', JArr [JObj [(''Text'', JStr ''crash loop'')]])]"
  let ?i = "\<lparr> kind = JStr ''Pod'', name = JStr ''coredns-abc'',
              namespace = JStr ''kube-system'', problem = JStr ''crash loop'',
              solution = JStr ''Check k8sgpt documentation for more details'',
              severity = Critical \<rparr>"
  have c: "convertResult asciiLowerCase ?r = Inr [?i]" by code_simp
  have n: "getProp ?r ''name'' = Inr (JStr ''kube-system/coredns-abc'')" by code_simp
  have s: "slashes ''kube-system/coredns-abc'' \<le> 1" by code_simp
  have m: "?i \<in> set [?i]" by simp
  have b: "CHR ''/'' \<in> set ''kube-system/coredns-abc''" by code_simp
  have a: "afterFirstSlash ''kube-system/coredns-abc'' \<noteq> []" by code_simp
  from convertResult_name_split [OF n s c m] b a
  have "namespace ?i = JStr (beforeFirstSlash ''kube-system/coredns-abc'') \<and>
        name ?i = JStr (afterFirstSlash ''kube-system/coredns-abc'')"
    by (simp only: if_True simp_thms)
  then have "JStr ''kube-system'' = JStr (beforeFirstSlash ''kube-system/coredns-abc'') \<and>
     JStr ''coredns-abc'' = JStr (afterFirstSlash ''kube-system/coredns-abc'')"
    by (simp only: issue.simps)
  with c show ?thesis by (simp only: simp_thms)
qed

theorem convertResult_name_split_counterexample:
  "convertResult asciiLowerCase (JObj [(''kind'', JStr ''Pod''), (''name'', JStr ''ns/''),
       (''error'', JArr [JObj [(''Text'', JStr ''crash loop'')]])])
     = Inr [\<lparr> kind = JStr ''Pod'', name = JStr ''ns/'', namespace = JStr ''ns'',
              problem = JStr ''crash loop'',
              solution = JStr ''Check k8sgpt documentation for more details'',
              severity = Critical \<rparr>] \<and>
   afterFirstSlash ''ns/'' = [] \<and>
   convertResult asciiLowerCase (JObj [(''kind'', JStr ''Pod''), (''name'', JStr ''a/b/c''),
       (''error'', JArr [JObj [(''Text'', JStr ''crash loop'')]])])
     = Inr [\<lparr> kind = JStr ''Pod'', name = JStr ''b'', namespace = JStr ''a'',
              problem = JStr ''crash loop'',
              solution = JStr ''Check k8sgpt documentation for more details'',
              severity = Critical \<rparr>] \<and>
   afterFirstSlash ''a/b/c'' = ''b/c''"
  by code_simp







section \<open>Properties of the invoker and the orchestrator\<close>

lemma logged_append: "logged (xs @ ys) = logged xs @ logged ys"
  by (induction xs rule: logged.induct) simp_all

lemma invoked_append: "invoked (xs @ ys) = invoked xs @ invoked ys"
  by (induction xs rule: invoked.induct) simp_all

lemma getProp_error: "getProp v k = Inl e \<Longrightarrow> e = TypeError"
  by (cases v) auto

lemma splitName_error: "splitName v = Inl e \<Longrightarrow> e = TypeError"
  by (cases v) (auto simp: Let_def split: if_splits)

lemma convertError_error: "convertError toLowerCase k n ns err = Inl e \<Longrightarrow> e = TypeError"
  by (auto simp: convertError_def split: sum.splits jsval.splits dest: getProp_error)

lemma convertErrors_error: "convertErrors toLowerCase k n ns errs = Inl e \<Longrightarrow> e = TypeError"
  by (induction errs) (auto split: sum.splits dest: convertError_error)

lemma convertResult_error: "convertResult toLowerCase r = Inl e \<Longrightarrow> e = TypeError"
  by (auto simp: convertResult_def split: sum.splits jsval.splits if_splits prod.splits
      dest: getProp_error splitName_error convertErrors_error)

lemma convertResults_error: "convertResults toLowerCase rs = Inl e \<Longrightarrow> e = TypeError"
  by (induction rs) (auto split: sum.splits dest: convertResult_error)

lemma convertK8sGPTToIssues_error:
  "convertK8sGPTToIssues toLowerCase output = Inl e \<Longrightarrow> e = TypeError"
  by (auto simp: convertK8sGPTToIssues_def split: sum.splits jsval.splits if_splits
      dest: getProp_error convertResults_error)

lemma succeeded_iff:
  "succeeded toLowerCase outcome \<longleftrightarrow> (\<exists>js. outcomeResult toLowerCase outcome = Inr js)"
  by (auto simp: succeeded_def outcomeResult_def split: exec_outcome.splits option.splits sum.splits)

lemma outcomeResult_issues:
  "outcomeResult toLowerCase outcome = Inr js \<Longrightarrow> issuesOf toLowerCase outcome = js"
  by (auto simp: issuesOf_def outcomeResult_def split: exec_outcome.splits option.splits)

lemma catchBlock_state:
  "catchBlock e s = (res, s') \<Longrightarrow>
     res = Inl (if errorCode e = Some ''ENOENT'' then NotInstalled else e) \<and>
     world s' = world s \<and> (\<exists>l msg. trace s' = trace s @ [Logged l msg])"
  by (auto simp: catchBlock_def logLine_def split: if_splits)

lemma world_logLine: "world (logLine l msg s) = world s"
  by (simp add: logLine_def)

lemma trace_logLine: "trace (logLine l msg s) = trace s @ [Logged l msg]"
  by (simp add: logLine_def)

text \<open>One invocation, effect by effect.\<close>

lemma run_trace:
  assumes "runK8sGPTAnalysis toLowerCase exec fs ns b s = (res, s')"
  shows "\<exists>rest. trace s' = trace s @
             Logged LDebug (''Running k8sgpt: '' @ commandOf (buildArgs fs ns)) #
             Invoked (buildArgs fs ns) (fst (exec (world s) (buildArgs fs ns))) # rest \<and>
           invoked rest = []"
    and "world s' = snd (exec (world s) (buildArgs fs ns))"
    and "res = (case outcomeResult toLowerCase (fst (exec (world s) (buildArgs fs ns))) of
                  Inl e \<Rightarrow> Inl e
                | Inr js \<Rightarrow> Inr (js, commandOf (buildArgs fs ns)))"
proof -
  let ?args = "buildArgs fs ns"
  let ?line = "Logged LDebug (''Running k8sgpt: '' @ commandOf ?args)"
  obtain outcome w where ex: "exec (world s) ?args = (outcome, w)"
    by (cases "exec (world s) ?args")
  let ?s1 = "logLine LDebug (''Running k8sgpt: '' @ commandOf ?args) s"
  let ?s2 = "?s1\<lparr>world := w, trace := trace ?s1 @ [Invoked ?args outcome]\<rparr>"
  have s2: "world ?s2 = w" "trace ?s2 = trace s @ [?line, Invoked ?args outcome]"
    by (simp_all add: trace_logLine)
  have all: "(\<exists>rest. trace s' = trace s @ ?line # Invoked ?args outcome # rest \<and>
                invoked rest = []) \<and> world s' = w \<and>
             res = (case outcomeResult toLowerCase outcome of
                      Inl e \<Rightarrow> Inl e | Inr js \<Rightarrow> Inr (js, commandOf ?args))"
  proof (cases outcome)
    case (Rejected code msg)
    with assms ex have "catchBlock (ExecError code msg) ?s2 = (res, s')"
      by (simp add: runK8sGPTAnalysis_def Let_def world_logLine)
    from catchBlock_state [OF this] s2 Rejected show ?thesis
      by (auto simp: outcomeResult_def)
  next
    case (Resolved stdout stderr)
    let ?s3 = "if stderr \<noteq> [] then logLine LDebug ''k8sgpt stderr:'' ?s2 else ?s2"
    have s3: "world ?s3 = w"
      "\<exists>mid. trace ?s3 = trace s @ ?line # Invoked ?args outcome # mid \<and> invoked mid = []"
      using s2 by (auto simp: world_logLine trace_logLine)
    then obtain mid where mid: "trace ?s3 = trace s @ ?line # Invoked ?args outcome # mid"
      "invoked mid = []" by blast
    show ?thesis
    proof (cases stdout)
      case None
      with assms ex Resolved have "catchBlock SyntaxError ?s3 = (res, s')"
        by (simp add: runK8sGPTAnalysis_def Let_def world_logLine split: if_splits)
      from catchBlock_state [OF this] obtain l m where
        r: "res = Inl SyntaxError" and w: "world s' = world ?s3"
        and t: "trace s' = trace ?s3 @ [Logged l m]" by auto
      from t mid have "trace s' = trace s @ ?line # Invoked ?args outcome # (mid @ [Logged l m])"
        by simp
      moreover have "invoked (mid @ [Logged l m]) = []" using mid(2) by (simp add: invoked_append)
      ultimately have "\<exists>rest. trace s' = trace s @ ?line # Invoked ?args outcome # rest \<and>
                invoked rest = []" by blast
      with r w s3(1) Resolved None show ?thesis by (simp add: outcomeResult_def)
    next
      case (Some out)
      show ?thesis
      proof (cases "convertK8sGPTToIssues toLowerCase out")
        case (Inl e)
        then have e: "e = TypeError" by (rule convertK8sGPTToIssues_error)
        from assms ex Resolved Some Inl have "catchBlock e ?s3 = (res, s')"
          by (simp add: runK8sGPTAnalysis_def Let_def world_logLine split: if_splits)
        from catchBlock_state [OF this] e obtain l m where
          r: "res = Inl e" and w: "world s' = world ?s3"
          and t: "trace s' = trace ?s3 @ [Logged l m]" by auto
        from t mid have "trace s' = trace s @ ?line # Invoked ?args outcome # (mid @ [Logged l m])"
          by simp
        moreover have "invoked (mid @ [Logged l m]) = []"
          using mid(2) by (simp add: invoked_append)
        ultimately have "\<exists>rest. trace s' = trace s @ ?line # Invoked ?args outcome # rest \<and>
                invoked rest = []" by blast
        with r w s3(1) Resolved Some Inl show ?thesis by (simp add: outcomeResult_def)
      next
        case (Inr js)
        let ?s4 = "if (case getProp out ''results'' of Inr r \<Rightarrow> noResults r | Inl _ \<Rightarrow> False)
                   then logLine LDebug
                          ''No results found in k8sgpt output or results is not an array'' ?s3
                   else ?s3"
        from assms ex Resolved Some Inr have r: "res = Inr (js, commandOf ?args)" and s': "s' = ?s4"
          by (auto simp: runK8sGPTAnalysis_def Let_def world_logLine split: if_splits)
        have "\<exists>rest. trace ?s4 = trace s @ ?line # Invoked ?args outcome # rest \<and>
                invoked rest = []"
        proof (cases "case getProp out ''results'' of Inr r \<Rightarrow> noResults r | Inl _ \<Rightarrow> False")
          case True
          then have "trace ?s4 = trace ?s3 @
              [Logged LDebug ''No results found in k8sgpt output or results is not an array'']"
            by (simp add: trace_logLine)
          with mid have "trace ?s4 = trace s @ ?line # Invoked ?args outcome #
              (mid @ [Logged LDebug ''No results found in k8sgpt output or results is not an array''])"
            by simp
          moreover have "invoked (mid @
              [Logged LDebug ''No results found in k8sgpt output or results is not an array'']) = []"
            using mid(2) by (simp add: invoked_append)
          ultimately show ?thesis by blast
        next
          case False
          then have "trace ?s4 = trace ?s3" by simp
          with mid show ?thesis by auto
        qed
        moreover have "world ?s4 = w" using s3(1) by (simp add: world_logLine)
        ultimately show ?thesis using r s' Resolved Some Inr by (simp add: outcomeResult_def)
      qed
    qed
  qed
  from all ex show "\<exists>rest. trace s' = trace s @ ?line #
             Invoked ?args (fst (exec (world s) ?args)) # rest \<and> invoked rest = []"
    by simp
  from all ex show "world s' = snd (exec (world s) ?args)" by simp
  from all ex show "res = (case outcomeResult toLowerCase (fst (exec (world s) ?args)) of
                  Inl e \<Rightarrow> Inl e | Inr js \<Rightarrow> Inr (js, commandOf ?args))"
    by simp
qed

lemma run_unfold:
  assumes "runK8sGPTAnalysis toLowerCase exec fs ns b s = (res, s')"
  shows "invocations s' = invocations s @ [(buildArgs fs ns, fst (exec (world s) (buildArgs fs ns)))]"
    and "world s' = snd (exec (world s) (buildArgs fs ns))"
    and "\<exists>rest. log s' = log s @ (LDebug, ''Running k8sgpt: '' @ commandOf (buildArgs fs ns)) # rest"
    and "res = Inr (js, c) \<Longrightarrow> c = commandOf (buildArgs fs ns) \<and>
           js = issuesOf toLowerCase (fst (exec (world s) (buildArgs fs ns))) \<and>
           succeeded toLowerCase (fst (exec (world s) (buildArgs fs ns)))"
    and "res = Inl e \<Longrightarrow> outcomeResult toLowerCase (fst (exec (world s) (buildArgs fs ns))) = Inl e"
proof -
  let ?args = "buildArgs fs ns"
  let ?o = "fst (exec (world s) ?args)"
  from run_trace(1) [OF assms] obtain rest where
    t: "trace s' = trace s @ Logged LDebug (''Running k8sgpt: '' @ commandOf ?args) #
          Invoked ?args ?o # rest" and i: "invoked rest = []" by blast
  from t i show "invocations s' = invocations s @ [(?args, ?o)]"
    by (simp add: invocations_def invoked_append)
  from run_trace(2) [OF assms] show "world s' = snd (exec (world s) ?args)" .
  from t have "log s' = log s @ (LDebug, ''Running k8sgpt: '' @ commandOf ?args) # logged rest"
    by (simp add: log_def logged_append)
  then show "\<exists>rest. log s' = log s @ (LDebug, ''Running k8sgpt: '' @ commandOf ?args) # rest"
    by blast
  note r = run_trace(3) [OF assms]
  show "c = commandOf ?args \<and> js = issuesOf toLowerCase ?o \<and> succeeded toLowerCase ?o"
    if "res = Inr (js, c)"
  proof -
    from r that have o: "outcomeResult toLowerCase ?o = Inr js" and c: "c = commandOf ?args"
      by (auto split: sum.splits)
    from o have "issuesOf toLowerCase ?o = js" by (rule outcomeResult_issues)
    moreover from o have "succeeded toLowerCase ?o" by (auto simp: succeeded_iff)
    ultimately show ?thesis using c by simp
  qed
  show "outcomeResult toLowerCase ?o = Inl e" if "res = Inl e"
    using r that by (auto split: sum.splits)
qed

lemma performed_append: "invocations s' = invocations s @ new \<Longrightarrow> performed s s' = new"
  by (simp add: performed_def)

lemma analyzeNamespaces_ok:
  "analyzeNamespaces toLowerCase exec fs nss (ai, cs) s = (Inr (ai', cs'), s') \<Longrightarrow>
     \<exists>new. invocations s' = invocations s @ new \<and>
       map fst new = map (\<lambda>ns. buildArgs (Some fs) (Some ns)) nss \<and>
       (\<forall>p \<in> set new. succeeded toLowerCase (snd p)) \<and>
       ai' = ai @ concat (map (issuesOf toLowerCase \<circ> snd) new) \<and>
       cs' = cs @ map (\<lambda>ns. commandOf (buildArgs (Some fs) (Some ns))) nss"
proof (induction nss arbitrary: ai cs s)
  case Nil
  then show ?case by simp
next
  case (Cons ns nss)
  obtain res s1 where
    run: "runK8sGPTAnalysis toLowerCase exec (Some fs) (Some ns) False s = (res, s1)"
    by (cases "runK8sGPTAnalysis toLowerCase exec (Some fs) (Some ns) False s")
  with Cons.prems obtain js c where res: "res = Inr (js, c)"
    and rest: "analyzeNamespaces toLowerCase exec fs nss (ai @ js, cs @ [c]) s1
                 = (Inr (ai', cs'), s')"
    by (auto split: sum.splits)
  let ?a = "buildArgs (Some fs) (Some ns)"
  let ?o = "fst (exec (world s) ?a)"
  from run_unfold(1) [OF run] have inv1: "invocations s1 = invocations s @ [(?a, ?o)]" .
  from run_unfold(4) [OF run res]
  have c: "c = commandOf ?a" and i: "js = issuesOf toLowerCase ?o"
    and ok: "succeeded toLowerCase ?o"
    by simp_all
  from Cons.IH [OF rest] obtain new where
    n1: "invocations s' = invocations s1 @ new" and
    n2: "map fst new = map (\<lambda>ns. buildArgs (Some fs) (Some ns)) nss" and
    n5: "\<forall>p \<in> set new. succeeded toLowerCase (snd p)" and
    n3: "ai' = (ai @ js) @ concat (map (issuesOf toLowerCase \<circ> snd) new)" and
    n4: "cs' = (cs @ [c]) @ map (\<lambda>ns. commandOf (buildArgs (Some fs) (Some ns))) nss"
    by blast
  have "invocations s' = invocations s @ ((?a, ?o) # new)" using n1 inv1 by simp
  moreover have "map fst ((?a, ?o) # new) = map (\<lambda>ns. buildArgs (Some fs) (Some ns)) (ns # nss)"
    using n2 by simp
  moreover have "\<forall>p \<in> set ((?a, ?o) # new). succeeded toLowerCase (snd p)"
    using n5 ok by simp
  moreover have "ai' = ai @ concat (map (issuesOf toLowerCase \<circ> snd) ((?a, ?o) # new))"
    using n3 i by simp
  moreover have "cs' = cs @ map (\<lambda>ns. commandOf (buildArgs (Some fs) (Some ns))) (ns # nss)"
    using n4 c by simp
  ultimately show ?case by blast
qed

lemma analyzeNamespaces_fail:
  "analyzeNamespaces toLowerCase exec fs nss acc s = (Inl e, s') \<Longrightarrow>
     \<exists>new. invocations s' = invocations s @ new \<and> new \<noteq> [] \<and> length new \<le> length nss \<and>
       map fst new = take (length new) (map (\<lambda>ns. buildArgs (Some fs) (Some ns)) nss) \<and>
       (\<forall>p \<in> set (butlast new). succeeded toLowerCase (snd p)) \<and>
       outcomeResult toLowerCase (snd (last new)) = Inl e"
proof (induction nss arbitrary: acc s)
  case Nil
  then show ?case by simp
next
  case (Cons ns nss)
  obtain ai cs where acc: "acc = (ai, cs)" by (cases acc)
  obtain res s1 where
    run: "runK8sGPTAnalysis toLowerCase exec (Some fs) (Some ns) False s = (res, s1)"
    by (cases "runK8sGPTAnalysis toLowerCase exec (Some fs) (Some ns) False s")
  let ?a = "buildArgs (Some fs) (Some ns)"
  let ?o = "fst (exec (world s) ?a)"
  from run_unfold(1) [OF run] have inv1: "invocations s1 = invocations s @ [(?a, ?o)]" .
  show ?case
  proof (cases res)
    case (Inl e')
    with Cons.prems acc run have "s' = s1" and e: "e' = e" by simp_all
    with inv1 have "invocations s' = invocations s @ [(?a, ?o)]" by simp
    moreover have "map fst [(?a, ?o)] =
        take (length [(?a, ?o)]) (map (\<lambda>ns. buildArgs (Some fs) (Some ns)) (ns # nss))"
      by simp
    moreover from run_unfold(5) [OF run Inl] e
    have "outcomeResult toLowerCase (snd (last [(?a, ?o)])) = Inl e" by simp
    ultimately show ?thesis by (intro exI [of _ "[(?a, ?o)]"]) simp
  next
    case (Inr p)
    obtain js c where p: "p = (js, c)" by (cases p)
    with Inr Cons.prems acc run
    have rest: "analyzeNamespaces toLowerCase exec fs nss (ai @ js, cs @ [c]) s1 = (Inl e, s')"
      by simp
    from run_unfold(4) [of toLowerCase exec "Some fs" "Some ns" False s res s1 js c] run Inr p
    have ok: "succeeded toLowerCase ?o" by simp
    from Cons.IH [OF rest] obtain new where
      n1: "invocations s' = invocations s1 @ new" and n2: "new \<noteq> []" and
      n3: "length new \<le> length nss" and
      n4: "map fst new = take (length new) (map (\<lambda>ns. buildArgs (Some fs) (Some ns)) nss)" and
      n5: "\<forall>p \<in> set (butlast new). succeeded toLowerCase (snd p)" and
      n6: "outcomeResult toLowerCase (snd (last new)) = Inl e"
      by blast
    from n2 n5 ok have "\<forall>p \<in> set (butlast ((?a, ?o) # new)). succeeded toLowerCase (snd p)"
      by simp
    moreover from n2 n6 have "outcomeResult toLowerCase (snd (last ((?a, ?o) # new))) = Inl e"
      by simp
    ultimately show ?thesis
      using n1 n3 n4 inv1 by (intro exI [of _ "(?a, ?o) # new"]) simp
  qed
qed

lemma analyzeAll_unfold:
  assumes "analyzeAll toLowerCase exec fs s = (res, s')"
  shows "invocations s' = invocations s @
           [(buildArgs (Some fs) None, fst (exec (world s) (buildArgs (Some fs) None)))]"
    and "res = Inr (ai, cs) \<Longrightarrow> cs = [commandOf (buildArgs (Some fs) None)] \<and>
           ai = issuesOf toLowerCase (fst (exec (world s) (buildArgs (Some fs) None)))"
proof -
  obtain r s1 where run: "runK8sGPTAnalysis toLowerCase exec (Some fs) None True s = (r, s1)"
    by (cases "runK8sGPTAnalysis toLowerCase exec (Some fs) None True s")
  with assms have s1: "s1 = s'" by (auto simp: analyzeAll_def split: sum.splits)
  from run_unfold(1) [OF run] s1
  show "invocations s' = invocations s @
           [(buildArgs (Some fs) None, fst (exec (world s) (buildArgs (Some fs) None)))]"
    by simp
  assume "res = Inr (ai, cs)"
  with assms run obtain c where r: "r = Inr (ai, c)" and cs: "cs = [c]"
    by (auto simp: analyzeAll_def split: sum.splits)
  from run_unfold(4) [OF run r] cs
  show "cs = [commandOf (buildArgs (Some fs) None)] \<and>
           ai = issuesOf toLowerCase (fst (exec (world s) (buildArgs (Some fs) None)))"
    by simp
qed

lemma analyze_scan:
  "analyze toLowerCase exec clock kc options s =
     (case scan toLowerCase exec options s of
        (Inl e, s') \<Rightarrow> (Inl e, s')
      | (Inr (allIssues, cmds), s') \<Rightarrow>
          (Inr \<lparr> timestamp = clock (world s'), cluster = clusterName kc, issues = allIssues,
                 summary = summarizeIssues allIssues, commands = cmds \<rparr>, s'))"
  by (simp add: analyze_def scan_def Let_def)

lemma scan_issues:
  assumes "scan toLowerCase exec options s = (Inr (ai, cs), s')"
  shows "ai = concat (map (issuesOf toLowerCase \<circ> snd) (performed s s'))"
proof (cases "allNamespaces options \<or> (\<forall>n ns. namespaces options \<noteq> Some (n # ns))")
  case True
  then have "analyzeAll toLowerCase exec (activeFilters options) s = (Inr (ai, cs), s')"
    using assms by (auto simp: scan_def split: option.splits list.splits)
  from analyzeAll_unfold(1) [OF this] analyzeAll_unfold(2) [OF this refl]
  show ?thesis by (simp add: performed_def)
next
  case False
  then obtain n ns where nss: "namespaces options = Some (n # ns)" and "\<not> allNamespaces options"
    by blast
  with assms
  have "analyzeNamespaces toLowerCase exec (activeFilters options) (n # ns) ([], []) s = (Inr (ai, cs), s')"
    by (simp add: scan_def)
  from analyzeNamespaces_ok [OF this] show ?thesis
    by (auto simp: performed_def)
qed

lemma analyze_issues:
  assumes "analyze toLowerCase exec clock kc options s = (Inr r, s')"
  shows "issues r = concat (map (issuesOf toLowerCase \<circ> snd) (performed s s'))"
    and "summary r = summarizeIssues (issues r)"
proof -
  obtain res s1 where sc: "scan toLowerCase exec options s = (res, s1)" by (cases "scan toLowerCase exec options s")
  with assms obtain ai cs where res: "res = Inr (ai, cs)" and s1: "s1 = s'"
    and r: "r = \<lparr> timestamp = clock (world s'), cluster = clusterName kc, issues = ai,
                 summary = summarizeIssues ai, commands = cs \<rparr>"
    by (auto simp: analyze_scan split: sum.splits)
  from scan_issues [of toLowerCase exec options s ai cs s'] sc res s1 r
  show "issues r = concat (map (issuesOf toLowerCase \<circ> snd) (performed s s'))" by simp
  from r show "summary r = summarizeIssues (issues r)" by simp
qed

lemma run_succeeded:
  assumes "runK8sGPTAnalysis toLowerCase exec fs ns b s = (res, s')"
  shows "(\<exists>js c. res = Inr (js, c))
           \<longleftrightarrow> succeeded toLowerCase (fst (exec (world s) (buildArgs fs ns)))"
  using run_trace(3) [OF assms] by (auto simp: succeeded_iff split: sum.splits)

lemma activeFilters_nonempty: "activeFilters options \<noteq> []"
  by (auto simp: activeFilters_def AVAILABLE_FILTERS_def split: option.splits)

lemma buildArgs_all:
  "f \<noteq> [] \<Longrightarrow> buildArgs (Some f) None = [''analyze'', ''--output=json'', ''--filter='' @ join '','' f]"
  by (simp add: buildArgs_def)

lemma commandOf_all:
  "commandOf [''analyze'', ''--output=json'', ''--filter='' @ x]
     = ''k8sgpt analyze --output=json --filter='' @ x"
  by (simp add: commandOf_def)

text \<open>
  C3 (as amended). For every analyze request in which the all-namespaces flag is set,
  whether or not a namespace list is supplied with it, exactly one external-analyzer
  invocation is performed, and it is the all-namespaces one: its arguments are the
  subcommand, the output flag and the filter, with no namespace argument; on success the
  result's commands hold that one audit string. The flag takes precedence over the list.
\<close>

theorem analyze_allNamespaces_first:
  assumes "allNamespaces options" "analyze toLowerCase exec clock kc options s = (res, s')"
  shows "map fst (performed s s') =
           [[''analyze'', ''--output=json'', ''--filter='' @ join '','' (activeFilters options)]] \<and>
         (\<forall>r. res = Inr r \<longrightarrow> commands r =
           [''k8sgpt analyze --output=json --filter='' @ join '','' (activeFilters options)])"
proof -
  let ?fs = "activeFilters options"
  obtain sres s1 where sc: "scan toLowerCase exec options s = (sres, s1)" by (cases "scan toLowerCase exec options s")
  with assms(1) have all: "analyzeAll toLowerCase exec ?fs s = (sres, s1)" by (simp add: scan_def)
  from assms(2) sc have s1: "s1 = s'"
    by (auto simp: analyze_scan split: sum.splits)
  have args: "buildArgs (Some ?fs) None =
      [''analyze'', ''--output=json'', ''--filter='' @ join '','' ?fs]"
    using activeFilters_nonempty by (rule buildArgs_all)
  from analyzeAll_unfold(1) [OF all] s1 args
  have "map fst (performed s s') =
      [[''analyze'', ''--output=json'', ''--filter='' @ join '','' ?fs]]"
    by (simp add: performed_def)
  moreover have "commands r = [''k8sgpt analyze --output=json --filter='' @ join '','' ?fs]"
    if "res = Inr r" for r
  proof -
    from that assms(2) sc obtain ai cs where sres: "sres = Inr (ai, cs)" and "commands r = cs"
      by (auto simp: analyze_scan split: sum.splits)
    with analyzeAll_unfold(2) [OF all sres] args show ?thesis
      by (simp only: commandOf_all)
  qed
  ultimately show ?thesis by blast
qed

theorem analyze_allNamespaces_first_witness:
  "map fst (performed sys0 (snd (analyze asciiLowerCase execReport (\<lambda>w. ''t1'') kcDev bothScopes sys0)))
     = [[''analyze'', ''--output=json'', ''--filter=Pod'']]"
proof -
  have a: "allNamespaces bothScopes" by code_simp
  have f: "''--filter='' @ join '','' (activeFilters bothScopes) = ''--filter=Pod''" by code_simp
  have "map fst (performed sys0 (snd (analyze asciiLowerCase execReport (\<lambda>w. ''t1'') kcDev bothScopes sys0)))
      = [[''analyze'', ''--output=json'', ''--filter='' @ join '','' (activeFilters bothScopes)]]"
    using analyze_allNamespaces_first [OF a prod.collapse [symmetric]] by blast
  with f show ?thesis by (simp only:)
qed

theorem analyze_allNamespaces_first_counterexample:
  "map fst (invocations (snd (analyze asciiLowerCase execReport (\<lambda>w. ''t1'') kcDev bothScopes sys0)))
     = [[''analyze'', ''--output=json'', ''--filter=Pod'']] \<and>
   map commands (case fst (analyze asciiLowerCase execReport (\<lambda>w. ''t1'') kcDev bothScopes sys0) of
       Inr r \<Rightarrow> [r] | Inl e \<Rightarrow> [])
     = [[''k8sgpt analyze --output=json --filter=Pod'']]"
  by code_simp

text \<open>
  C4 (as amended). For every analyze request with all-namespaces unset and a non-empty
  namespace list of length n: analyze returns a result exactly when every invocation it
  performed succeeded. When it returns a result, exactly n external-analyzer invocations
  were performed, one per listed namespace in list order, all of them succeeded, the
  result's issues are the issues of these invocations concatenated in invocation order,
  and its commands are the n audit strings in the same order. When an invocation fails,
  analyze stops there and throws the error of that invocation: between one and n
  invocations were performed, for the first namespaces of the list in order, all but the
  last succeeded, the last failed, and no result is returned.
\<close>

theorem analyze_namespace_list:
  assumes "\<not> allNamespaces options" "namespaces options = Some nss" "nss \<noteq> []"
    "analyze toLowerCase exec clock kc options s = (res, s')"
  shows "(\<forall>r. res = Inr r \<longrightarrow>
            length (performed s s') = length nss \<and>
            map fst (performed s s')
              = map (\<lambda>ns. buildArgs (Some (activeFilters options)) (Some ns)) nss \<and>
            (\<forall>p \<in> set (performed s s'). succeeded toLowerCase (snd p)) \<and>
            issues r = concat (map (issuesOf toLowerCase \<circ> snd) (performed s s')) \<and>
            commands r
              = map (\<lambda>ns. commandOf (buildArgs (Some (activeFilters options)) (Some ns))) nss \<and>
            length (commands r) = length nss) \<and>
         (\<forall>e. res = Inl e \<longrightarrow>
            performed s s' \<noteq> [] \<and> length (performed s s') \<le> length nss \<and>
            map fst (performed s s')
              = take (length (performed s s'))
                  (map (\<lambda>ns. buildArgs (Some (activeFilters options)) (Some ns)) nss) \<and>
            (\<forall>p \<in> set (butlast (performed s s')). succeeded toLowerCase (snd p)) \<and>
            \<not> succeeded toLowerCase (snd (last (performed s s'))) \<and>
            outcomeResult toLowerCase (snd (last (performed s s'))) = Inl e) \<and>
         ((\<exists>r. res = Inr r)
            \<longleftrightarrow> (\<forall>p \<in> set (performed s s'). succeeded toLowerCase (snd p)))"
proof -
  let ?fs = "activeFilters options"
  from assms(3) obtain n ns where nss: "nss = n # ns" by (cases nss) auto
  obtain sres s1 where sc: "scan toLowerCase exec options s = (sres, s1)"
    by (cases "scan toLowerCase exec options s")
  with assms(1,2) nss
  have loop: "analyzeNamespaces toLowerCase exec ?fs nss ([], []) s = (sres, s1)"
    by (simp add: scan_def)
  from assms(4) sc have s1: "s1 = s'"
    by (auto simp: analyze_scan split: sum.splits)
  have ok: "length (performed s s') = length nss \<and>
            map fst (performed s s') = map (\<lambda>ns. buildArgs (Some ?fs) (Some ns)) nss \<and>
            (\<forall>p \<in> set (performed s s'). succeeded toLowerCase (snd p)) \<and>
            issues r = concat (map (issuesOf toLowerCase \<circ> snd) (performed s s')) \<and>
            commands r = map (\<lambda>ns. commandOf (buildArgs (Some ?fs) (Some ns))) nss \<and>
            length (commands r) = length nss" if "res = Inr r" for r
  proof -
    from that assms(4) sc obtain ai cs where sres: "sres = Inr (ai, cs)"
      and r: "issues r = ai" "commands r = cs"
      by (auto simp: analyze_scan split: sum.splits)
    from analyzeNamespaces_ok [of toLowerCase exec ?fs nss "[]" "[]" s ai cs s'] loop sres s1
    obtain new where n1: "invocations s' = invocations s @ new"
      and n2: "map fst new = map (\<lambda>ns. buildArgs (Some ?fs) (Some ns)) nss"
      and n5: "\<forall>p \<in> set new. succeeded toLowerCase (snd p)"
      and n3: "ai = concat (map (issuesOf toLowerCase \<circ> snd) new)"
      and n4: "cs = map (\<lambda>ns. commandOf (buildArgs (Some ?fs) (Some ns))) nss"
      by auto
    from n1 have p: "performed s s' = new" by (rule performed_append)
    from n2 have "length new = length nss" using length_map by metis
    with p n2 n3 n4 n5 r show ?thesis by simp
  qed
  have bad: "performed s s' \<noteq> [] \<and> length (performed s s') \<le> length nss \<and>
            map fst (performed s s')
              = take (length (performed s s')) (map (\<lambda>ns. buildArgs (Some ?fs) (Some ns)) nss) \<and>
            (\<forall>p \<in> set (butlast (performed s s')). succeeded toLowerCase (snd p)) \<and>
            \<not> succeeded toLowerCase (snd (last (performed s s'))) \<and>
            outcomeResult toLowerCase (snd (last (performed s s'))) = Inl e"
    if "res = Inl e" for e
  proof -
    from that assms(4) sc have sres: "sres = Inl e"
      by (auto simp: analyze_scan split: sum.splits)
    from analyzeNamespaces_fail [of toLowerCase exec ?fs nss "([], [])" s e s'] loop sres s1
    obtain new where n1: "invocations s' = invocations s @ new" and n2: "new \<noteq> []"
      and n3: "length new \<le> length nss"
      and n4: "map fst new = take (length new) (map (\<lambda>ns. buildArgs (Some ?fs) (Some ns)) nss)"
      and n5: "\<forall>p \<in> set (butlast new). succeeded toLowerCase (snd p)"
      and n6: "outcomeResult toLowerCase (snd (last new)) = Inl e"
      by auto
    from n1 have p: "performed s s' = new" by (rule performed_append)
    from n6 have "\<not> succeeded toLowerCase (snd (last new))" by (simp add: succeeded_iff)
    with p n2 n3 n4 n5 n6 show ?thesis by simp
  qed
  have iff: "(\<exists>r. res = Inr r)
      \<longleftrightarrow> (\<forall>p \<in> set (performed s s'). succeeded toLowerCase (snd p))"
  proof (cases res)
    case (Inl e)
    from bad [OF Inl] have "last (performed s s') \<in> set (performed s s')"
      and "\<not> succeeded toLowerCase (snd (last (performed s s')))" by simp_all
    with Inl show ?thesis by auto
  next
    case (Inr r)
    with ok [OF Inr] show ?thesis by simp
  qed
  from ok bad iff show ?thesis by blast
qed

theorem analyze_namespace_list_counterexample:
  "fst (analyze asciiLowerCase execMissing (\<lambda>w. ''t1'') kcDev listedScopes sys0) = Inl NotInstalled \<and>
   map fst (invocations (snd (analyze asciiLowerCase execMissing (\<lambda>w. ''t1'') kcDev listedScopes sys0)))
     = [[''analyze'', ''--output=json'', ''--filter=Pod'', ''--namespace=a'']]"
  by code_simp

theorem analyze_namespace_list_witness:
  "fst (analyze asciiLowerCase execReport (\<lambda>w. ''t1'') kcDev listedScopes sys0)
     = Inr \<lparr> timestamp = ''t1'', cluster = ''dev'', issues = [pendingIssue, pendingIssue],
             summary = \<lparr> total = 2, critical = 0, warning = 2, info = 0 \<rparr>,
             commands = [''k8sgpt analyze --output=json --filter=Pod --namespace=a'',
                         ''k8sgpt analyze --output=json --filter=Pod --namespace=b''] \<rparr> \<and>
   map fst (performed sys0 (snd (analyze asciiLowerCase execReport (\<lambda>w. ''t1'') kcDev listedScopes sys0)))
     = [[''analyze'', ''--output=json'', ''--filter=Pod'', ''--namespace=a''],
        [''analyze'', ''--output=json'', ''--filter=Pod'', ''--namespace=b'']]"
proof -
  let ?run = "analyze asciiLowerCase execReport (\<lambda>w. ''t1'') kcDev listedScopes sys0"
  let ?r = "\<lparr> timestamp = ''t1'', cluster = ''dev'', issues = [pendingIssue, pendingIssue],
             summary = \<lparr> total = 2, critical = 0, warning = 2, info = 0 \<rparr>,
             commands = [''k8sgpt analyze --output=json --filter=Pod --namespace=a'',
                         ''k8sgpt analyze --output=json --filter=Pod --namespace=b''] \<rparr>"
  have a: "\<not> allNamespaces listedScopes" by code_simp
  have n: "namespaces listedScopes = Some [''a'', ''b'']" by code_simp
  have ne: "[''a'', ''b''] \<noteq> ([] :: string list)" by simp
  have r: "fst ?run = Inr ?r" by code_simp
  have m: "map (\<lambda>ns. buildArgs (Some (activeFilters listedScopes)) (Some ns)) [''a'', ''b'']
      = [[''analyze'', ''--output=json'', ''--filter=Pod'', ''--namespace=a''],
         [''analyze'', ''--output=json'', ''--filter=Pod'', ''--namespace=b'']]"
    by code_simp
  from analyze_namespace_list [OF a n ne prod.collapse [symmetric]] r
  have "map fst (performed sys0 (snd ?run))
      = map (\<lambda>ns. buildArgs (Some (activeFilters listedScopes)) (Some ns)) [''a'', ''b'']"
    by blast
  with m r show ?thesis by (simp only: simp_thms)
qed

text \<open>
  C8 (as amended). For every external-analyzer invocation, the audit string is a function
  of the filters and the namespace alone (the executable name and the argument list,
  joined by spaces). The first thing the invocation does is hand it to the debug log;
  the next is to run the executable, once, with that argument list; after that it only
  logs. This whatever the outcome. The caller receives the audit string when the
  invocation succeeds. When it fails the function throws and the caller receives an
  error in place of the audit string: the fresh "k8sgpt is not installed" error, which
  carries nothing of the invocation, when the executable is missing, and otherwise the
  error as it was raised.
\<close>

theorem runK8sGPTAnalysis_audit:
  assumes "runK8sGPTAnalysis toLowerCase exec fs ns b s = (res, s')"
  shows "(\<exists>rest. trace s' = trace s @
             Logged LDebug (''Running k8sgpt: '' @ commandOf (buildArgs fs ns)) #
             Invoked (buildArgs fs ns) (fst (exec (world s) (buildArgs fs ns))) # rest \<and>
           invoked rest = []) \<and>
         (\<exists>rest. log s' = log s @
            (LDebug, ''Running k8sgpt: '' @ commandOf (buildArgs fs ns)) # rest) \<and>
         performed s s' = [(buildArgs fs ns, fst (exec (world s) (buildArgs fs ns)))] \<and>
         (\<forall>is c. res = Inr (is, c) \<longrightarrow> c = commandOf (buildArgs fs ns)) \<and>
         ((\<exists>e. res = Inl e)
            \<longleftrightarrow> \<not> succeeded toLowerCase (fst (exec (world s) (buildArgs fs ns)))) \<and>
         (\<forall>e. res = Inl e
            \<longrightarrow> outcomeResult toLowerCase (fst (exec (world s) (buildArgs fs ns))) = Inl e) \<and>
         (\<forall>msg. fst (exec (world s) (buildArgs fs ns)) = Rejected (Some ''ENOENT'') msg
            \<longrightarrow> res = Inl NotInstalled)"
proof -
  let ?o = "fst (exec (world s) (buildArgs fs ns))"
  have "performed s s' = [(buildArgs fs ns, ?o)]"
    using run_unfold(1) [OF assms] by (rule performed_append)
  moreover have "c = commandOf (buildArgs fs ns)" if "res = Inr (is, c)" for "is" c
    using run_unfold(4) [OF assms that] by simp
  moreover have "(\<exists>e. res = Inl e) \<longleftrightarrow> \<not> succeeded toLowerCase ?o"
    using run_succeeded [OF assms] by (cases res) auto
  moreover have "outcomeResult toLowerCase ?o = Inl e" if "res = Inl e" for e
    using run_unfold(5) [OF assms that] .
  moreover have "res = Inl NotInstalled" if "?o = Rejected (Some ''ENOENT'') msg" for msg
    using run_trace(3) [OF assms] that by (simp add: outcomeResult_def)
  ultimately show ?thesis using run_trace(1) [OF assms] run_unfold(3) [OF assms] by blast
qed

theorem runK8sGPTAnalysis_audit_witness:
  "(\<exists>rest. trace (snd (runK8sGPTAnalysis asciiLowerCase execMissing (Some [''Pod''])
               (Some ''a'') False sys0))
      = Logged LDebug ''Running k8sgpt: k8sgpt analyze --output=json --filter=Pod --namespace=a''
        # Invoked [''analyze'', ''--output=json'', ''--filter=Pod'', ''--namespace=a'']
            (Rejected (Some ''ENOENT'') ''spawn k8sgpt ENOENT'')
        # rest) \<and>
   fst (runK8sGPTAnalysis asciiLowerCase execMissing (Some [''Pod'']) (Some ''a'') False sys0)
     = Inl NotInstalled"
proof -
  let ?run = "runK8sGPTAnalysis asciiLowerCase execMissing (Some [''Pod'']) (Some ''a'') False sys0"
  let ?args = "buildArgs (Some [''Pod'']) (Some ''a'')"
  have a: "?args = [''analyze'', ''--output=json'', ''--filter=Pod'', ''--namespace=a'']"
    by code_simp
  have c: "''Running k8sgpt: '' @
        commandOf [''analyze'', ''--output=json'', ''--filter=Pod'', ''--namespace=a'']
      = ''Running k8sgpt: k8sgpt analyze --output=json --filter=Pod --namespace=a''"
    by code_simp
  have l: "trace sys0 = []" by code_simp
  have o': "fst (execMissing (world sys0)
        [''analyze'', ''--output=json'', ''--filter=Pod'', ''--namespace=a''])
      = Rejected (Some ''ENOENT'') ''spawn k8sgpt ENOENT''"
    by code_simp
  from o' a have o: "fst (execMissing (world sys0) ?args)
      = Rejected (Some ''ENOENT'') ''spawn k8sgpt ENOENT''"
    by (simp only:)
  note w = runK8sGPTAnalysis_audit [OF prod.collapse [symmetric],
      of asciiLowerCase execMissing "Some [''Pod'']" "Some ''a''" False sys0]
  from w have "\<exists>rest. trace (snd ?run) = trace sys0 @
      Logged LDebug (''Running k8sgpt: '' @ commandOf ?args) #
      Invoked ?args (fst (execMissing (world sys0) ?args)) # rest"
    by blast
  then have "\<exists>rest. trace (snd ?run)
      = Logged LDebug ''Running k8sgpt: k8sgpt analyze --output=json --filter=Pod --namespace=a''
        # Invoked [''analyze'', ''--output=json'', ''--filter=Pod'', ''--namespace=a'']
            (Rejected (Some ''ENOENT'') ''spawn k8sgpt ENOENT'')
        # rest"
    by (simp only: a c l o' append_Nil)
  moreover from w o have "fst ?run = Inl NotInstalled" by blast
  ultimately show ?thesis by blast
qed

theorem runK8sGPTAnalysis_audit_counterexample:
  "fst (runK8sGPTAnalysis asciiLowerCase execMissing (Some [''Pod'']) (Some ''a'') False sys0)
     = Inl NotInstalled \<and>
   fst (analyze asciiLowerCase execMissing (\<lambda>w. ''t1'') kcDev bothScopes sys0) = Inl NotInstalled"
  by code_simp

text \<open>
  C9. Two runs of the pipeline over the same raw analyzer outputs yield the same issues
  and the same summary, whatever the clock, the cluster context, the request and the
  earlier state of either run: issues and summary depend on the raw outputs alone.
\<close>

theorem analyze_replay:
  assumes "analyze toLowerCase exec clock kc options s = (Inr r, t)"
    "analyze toLowerCase exec' clock' kc' options' s' = (Inr r', t')"
    "map snd (performed s t) = map snd (performed s' t')"
  shows "issues r = issues r' \<and> summary r = summary r'"
proof -
  have "concat (map (issuesOf toLowerCase \<circ> snd) (performed s t)) = concat (map (issuesOf toLowerCase) (map snd (performed s t)))"
    by simp
  also have "\<dots> = concat (map (issuesOf toLowerCase) (map snd (performed s' t')))"
    using assms(3) by simp
  also have "\<dots> = concat (map (issuesOf toLowerCase \<circ> snd) (performed s' t'))"
    by simp
  finally have "issues r = issues r'"
    using analyze_issues(1) [OF assms(1)] analyze_issues(1) [OF assms(2)] by simp
  with analyze_issues(2) [OF assms(1)] analyze_issues(2) [OF assms(2)]
  show ?thesis by simp
qed

theorem analyze_replay_witness:
  "(\<exists>r r'. fst (analyze asciiLowerCase execReport (\<lambda>w. ''t1'') kcDev listedScopes sys0) = Inr r \<and>
      fst (analyze asciiLowerCase execReport (\<lambda>w. ''t2'') kcProd otherScopes (sys0\<lparr>trace := [Logged LError ''earlier'']\<rparr>))
        = Inr r' \<and>
      timestamp r \<noteq> timestamp r' \<and> issues r = issues r' \<and> summary r = summary r')"
proof -
  let ?A = "analyze asciiLowerCase execReport (\<lambda>w. ''t1'') kcDev listedScopes sys0"
  let ?B = "analyze asciiLowerCase execReport (\<lambda>w. ''t2'') kcProd otherScopes (sys0\<lparr>trace := [Logged LError ''earlier'']\<rparr>)"
  let ?rA = "\<lparr> timestamp = ''t1'', cluster = ''dev'', issues = [pendingIssue, pendingIssue],
             summary = \<lparr> total = 2, critical = 0, warning = 2, info = 0 \<rparr>,
             commands = [''k8sgpt analyze --output=json --filter=Pod --namespace=a'',
                         ''k8sgpt analyze --output=json --filter=Pod --namespace=b''] \<rparr>"
  let ?rB = "\<lparr> timestamp = ''t2'', cluster = ''east'', issues = [pendingIssue, pendingIssue],
             summary = \<lparr> total = 2, critical = 0, warning = 2, info = 0 \<rparr>,
             commands = [''k8sgpt analyze --output=json --filter=Service --namespace=x'',
                         ''k8sgpt analyze --output=json --filter=Service --namespace=y''] \<rparr>"
  have a: "?A = (Inr ?rA, snd ?A)" by code_simp
  have b: "?B = (Inr ?rB, snd ?B)" by code_simp
  have o: "map snd (performed sys0 (snd ?A))
      = map snd (performed (sys0\<lparr>trace := [Logged LError ''earlier'']\<rparr>) (snd ?B))"
    by code_simp
  have d: "timestamp ?rA \<noteq> timestamp ?rB" by code_simp
  from analyze_replay [OF a b o] have "issues ?rA = issues ?rB \<and> summary ?rA = summary ?rB" .
  moreover from a have "fst ?A = Inr ?rA" by (metis fst_conv)
  moreover from b have "fst ?B = Inr ?rB" by (metis fst_conv)
  ultimately show ?thesis using d by blast
qed

section \<open>Properties of the event issues\<close>

lemma isRecent_iff: "isRecent now ev \<longleftrightarrow> dated ev \<and> now - 3600000 < eventTime ev"
  by (auto simp: isRecent_def dated_def eventTime_def Let_def split: option.splits date.splits)

lemma errorEvents_filter: "errorEvents now events = filter (qualifies now) events"
  by (induction events) (auto simp: errorEvents_def qualifies_def isRecent_iff isErrorEvent_def)

lemma laterThan_dated: "dated a \<Longrightarrow> dated b \<Longrightarrow> laterThan a b \<longleftrightarrow> eventTime b < eventTime a"
  by (auto simp: laterThan_def dated_def eventTime_def split: option.splits date.splits)

lemma key_in: "(k, v) \<in> set m \<Longrightarrow> k \<in> fst ` set m"
  by force

lemma Map_set_keys:
  "map fst (Map_set m k v) = (if k \<in> fst ` set m then map fst m else map fst m @ [k])"
  by (induction m) (auto dest: key_in)

lemma Map_set_key_set: "fst ` set (Map_set m k v) = insert k (fst ` set m)"
proof -
  have "set (map fst (Map_set m k v)) = insert k (set (map fst m))"
    unfolding Map_set_keys by auto
  then show ?thesis by simp
qed

lemma Map_set_distinct: "distinct (map fst m) \<Longrightarrow> distinct (map fst (Map_set m k v))"
  by (simp add: Map_set_keys)

lemma Map_set_entries:
  "distinct (map fst m) \<Longrightarrow>
     set (Map_set m k v) = insert (k, v) {p \<in> set m. fst p \<noteq> k}"
proof (induction m)
  case Nil
  show ?case by simp
next
  case (Cons q m)
  obtain k' v' where q: "q = (k', v')" by (cases q)
  from Cons.prems q have fresh: "k' \<notin> fst ` set m" and d: "distinct (map fst m)" by simp_all
  show ?case
  proof (cases "k' = k")
    case True
    with fresh have "{p \<in> set m. fst p \<noteq> k} = set m" by force
    moreover from True q have "{p \<in> set (q # m). fst p \<noteq> k} = {p \<in> set m. fst p \<noteq> k}"
      by auto
    ultimately show ?thesis using True q by simp
  next
    case False
    with q have "set (Map_set (q # m) k v) = insert q (set (Map_set m k v))" by simp
    also have "\<dots> = insert q (insert (k, v) {p \<in> set m. fst p \<noteq> k})"
      using Cons.IH [OF d] by simp
    also have "\<dots> = insert (k, v) {p \<in> set (q # m). fst p \<noteq> k}"
      using False q by auto
    finally show ?thesis .
  qed
qed

lemma Map_get_iff:
  "distinct (map fst m) \<Longrightarrow> Map_get m k = Some v \<longleftrightarrow> (k, v) \<in> set m"
  by (simp add: Map_get_def)

lemma Map_has_iff: "Map_has m k \<longleftrightarrow> (\<exists>v. (k, v) \<in> set m)"
  by (force simp: Map_has_def)

lemma uniqueEvents_step:
  "uniqueEvents (ev # evs) m =
     uniqueEvents evs (if replaces m ev then Map_set m (eventKey ev) ev else m)"
  by (simp add: replaces_def Let_def)

lemma replaces_iff:
  assumes "wellKept m" "dated ev"
  shows "replaces m ev \<longleftrightarrow>
     (\<forall>old. (eventKey ev, old) \<in> set m \<longrightarrow> eventTime old < eventTime ev)"
proof -
  from assms(1) have d: "distinct (map fst m)" by (simp add: wellKept_def)
  show ?thesis
  proof (cases "Map_has m (eventKey ev)")
    case False
    then show ?thesis by (auto simp: replaces_def Map_has_iff)
  next
    case True
    then obtain old where old: "(eventKey ev, old) \<in> set m" by (auto simp: Map_has_iff)
    with d have g: "Map_get m (eventKey ev) = Some old" by (simp add: Map_get_iff)
    from old assms(1) have "dated old" by (auto simp: wellKept_def)
    with assms(2) have l: "laterThan ev old \<longleftrightarrow> eventTime old < eventTime ev"
      by (rule laterThan_dated)
    have u: "old' = old" if "(eventKey ev, old') \<in> set m" for old'
    proof -
      from that d have "Map_get m (eventKey ev) = Some old'" by (simp add: Map_get_iff)
      with g show ?thesis by simp
    qed
    have rhs: "(\<forall>old'. (eventKey ev, old') \<in> set m \<longrightarrow> eventTime old' < eventTime ev)
        \<longleftrightarrow> eventTime old < eventTime ev"
      using u old by blast
    have lhs: "replaces m ev \<longleftrightarrow> laterThan ev old"
      using True g by (simp add: replaces_def)
    from lhs rhs l show ?thesis by simp
  qed
qed

lemma wellKept_step:
  assumes "wellKept m" "dated ev"
  shows "wellKept (if replaces m ev then Map_set m (eventKey ev) ev else m)"
  using assms by (auto simp: wellKept_def Map_set_distinct Map_set_entries)

lemma uniqueEvents_wellKept:
  "wellKept m \<Longrightarrow> \<forall>e \<in> set evs. dated e \<Longrightarrow> wellKept (uniqueEvents evs m)"
proof (induction evs arbitrary: m)
  case Nil
  then show ?case by simp
next
  case (Cons ev evs)
  from Cons.prems have "wellKept (if replaces m ev then Map_set m (eventKey ev) ev else m)"
    by (intro wellKept_step) simp_all
  with Cons.IH Cons.prems show ?case
    unfolding uniqueEvents_step by simp
qed

lemma uniqueEvents_keys:
  "set (map fst (uniqueEvents evs m)) = set (map fst m) \<union> eventKey ` set evs"
proof (induction evs arbitrary: m)
  case Nil
  show ?case by simp
next
  case (Cons ev evs)
  have "set (map fst (if replaces m ev then Map_set m (eventKey ev) ev else m))
      = set (map fst m) \<union> {eventKey ev}"
    by (auto simp: Map_set_key_set replaces_def Map_has_def)
  with Cons.IH [of "if replaces m ev then Map_set m (eventKey ev) ev else m"]
  show ?case unfolding uniqueEvents_step by auto
qed

lemma entry_unique:
  assumes "distinct (map fst m)" "(k, a) \<in> set m" "(k, b) \<in> set m"
  shows "a = b"
proof -
  from assms have "Map_get m k = Some a" "Map_get m k = Some b" by (simp_all add: Map_get_iff)
  then show ?thesis by simp
qed

lemma uniqueEvents_rep:
  assumes "wellKept m" "\<forall>e \<in> set evs. dated e" "(k, r) \<in> set (uniqueEvents evs m)"
  shows "((k, r) \<in> set m \<and> (\<forall>e \<in> set evs. eventKey e = k \<longrightarrow> eventTime e \<le> eventTime r)) \<or>
         (\<exists>pre post. evs = pre @ r # post \<and> eventKey r = k \<and>
            (\<forall>e \<in> set pre. eventKey e = k \<longrightarrow> eventTime e < eventTime r) \<and>
            (\<forall>e \<in> set post. eventKey e = k \<longrightarrow> eventTime e \<le> eventTime r) \<and>
            (\<forall>e0. (k, e0) \<in> set m \<longrightarrow> eventTime e0 < eventTime r))"
  using assms
proof (induction evs arbitrary: m)
  case Nil
  then show ?case by simp
next
  case (Cons ev evs)
  let ?key = "eventKey ev"
  let ?m' = "if replaces m ev then Map_set m ?key ev else m"
  from Cons.prems have dev: "dated ev" and drest: "\<forall>e \<in> set evs. dated e" by simp_all
  from Cons.prems(1) dev have wk': "wellKept ?m'" by (rule wellKept_step)
  from Cons.prems(3) have mem: "(k, r) \<in> set (uniqueEvents evs ?m')"
    unfolding uniqueEvents_step .
  from Cons.prems(1) have d: "distinct (map fst m)" by (simp add: wellKept_def)
  have rep: "replaces m ev \<longleftrightarrow> (\<forall>old. (?key, old) \<in> set m \<longrightarrow> eventTime old < eventTime ev)"
    using Cons.prems(1) dev by (rule replaces_iff)
  have ent: "set ?m' = insert (?key, ev) {p \<in> set m. fst p \<noteq> ?key}" if "replaces m ev"
    using that d by (simp add: Map_set_entries)
  have same: "?m' = m" if "\<not> replaces m ev"
    using that by simp
  from Cons.IH [OF wk' drest mem]
  consider (A) "(k, r) \<in> set ?m'"
      "\<forall>e \<in> set evs. eventKey e = k \<longrightarrow> eventTime e \<le> eventTime r"
    | (B) pre post where "evs = pre @ r # post" "eventKey r = k"
      "\<forall>e \<in> set pre. eventKey e = k \<longrightarrow> eventTime e < eventTime r"
      "\<forall>e \<in> set post. eventKey e = k \<longrightarrow> eventTime e \<le> eventTime r"
      "\<forall>e0. (k, e0) \<in> set ?m' \<longrightarrow> eventTime e0 < eventTime r"
    by blast
  then show ?case
  proof cases
    case A
    show ?thesis
    proof (cases "replaces m ev \<and> k = ?key")
      case True
      with ent A(1) have r: "r = ev" by auto
      have "ev # evs = [] @ r # evs" using r by simp
      moreover have "eventKey r = k" using r True by simp
      moreover have "\<forall>e0. (k, e0) \<in> set m \<longrightarrow> eventTime e0 < eventTime r"
        using rep True r by simp
      ultimately show ?thesis using A(2) by (intro disjI2 exI [of _ "[]"] exI [of _ evs]) simp
    next
      case False
      have inm: "(k, r) \<in> set m"
      proof (cases "replaces m ev")
        case True
        with False have "k \<noteq> ?key" by simp
        with ent [OF True] A(1) show ?thesis by auto
      next
        case False
        with same A(1) show ?thesis by simp
      qed
      have "eventTime ev \<le> eventTime r" if "?key = k"
      proof -
        from that False have "\<not> replaces m ev" by simp
        with rep obtain old where "(?key, old) \<in> set m" "\<not> eventTime old < eventTime ev"
          by blast
        moreover from this(1) that inm d have "old = r" by (metis entry_unique)
        ultimately show ?thesis by simp
      qed
      with A(2) inm show ?thesis by auto
    qed
  next
    case B
    have e1: "ev # evs = (ev # pre) @ r # post" using B(1) by simp
    have e2: "eventTime ev < eventTime r" if "?key = k"
    proof (cases "replaces m ev")
      case True
      from ent [OF True] that have "(k, ev) \<in> set ?m'" by simp
      with B(5) show ?thesis by blast
    next
      case False
      with rep obtain old where o: "(?key, old) \<in> set m" "\<not> eventTime old < eventTime ev"
        by blast
      with same [OF False] that have "(k, old) \<in> set ?m'" by simp
      with B(5) have "eventTime old < eventTime r" by blast
      with o(2) show ?thesis by simp
    qed
    have e3: "eventTime e0 < eventTime r" if "(k, e0) \<in> set m" for e0
    proof (cases "replaces m ev \<and> k = ?key")
      case True
      with rep that have "eventTime e0 < eventTime ev" by blast
      moreover from True e2 have "eventTime ev < eventTime r" by simp
      ultimately show ?thesis by simp
    next
      case False
      have "(k, e0) \<in> set ?m'"
      proof (cases "replaces m ev")
        case True
        with False have "k \<noteq> ?key" by simp
        with ent [OF True] that show ?thesis by simp
      next
        case False
        with same that show ?thesis by simp
      qed
      with B(5) show ?thesis by blast
    qed
    from e2 B(3) have e4: "\<forall>e \<in> set (ev # pre). eventKey e = k \<longrightarrow> eventTime e < eventTime r"
      by simp
    from e1 B(2) e4 B(4) e3 show ?thesis
      by (intro disjI2 exI [of _ "ev # pre"] exI [of _ post]) blast
  qed
qed

lemma wellKept_empty: "wellKept []"
  by (simp add: wellKept_def)

lemma errorEvents_dated: "\<forall>e \<in> set (errorEvents now events). dated e"
  by (simp add: errorEvents_filter qualifies_def)

lemma representatives_keys:
  "map eventKey (representatives now events)
     = map fst (uniqueEvents (errorEvents now events) []) \<and>
   distinct (map eventKey (representatives now events)) \<and>
   eventKey ` set (representatives now events) = eventKey ` set (errorEvents now events)"
proof -
  let ?M = "uniqueEvents (errorEvents now events) []"
  have wk: "wellKept ?M"
    using wellKept_empty errorEvents_dated by (rule uniqueEvents_wellKept)
  then have "\<forall>p \<in> set ?M. eventKey (snd p) = fst p" by (simp add: wellKept_def)
  then have m: "map eventKey (representatives now events) = map fst ?M"
    by (simp add: representatives_def Map_values_def)
  moreover from wk have "distinct (map fst ?M)" by (simp add: wellKept_def)
  moreover have "set (map fst ?M) = eventKey ` set (errorEvents now events)"
    using uniqueEvents_keys [of "errorEvents now events" "[]"] by simp
  ultimately show ?thesis by (metis set_map)
qed

lemma representatives_first_latest:
  assumes "r \<in> set (representatives now events)"
  shows "\<exists>pre post. errorEvents now events = pre @ r # post \<and>
           (\<forall>e \<in> set pre. eventKey e = eventKey r \<longrightarrow> eventTime e < eventTime r) \<and>
           (\<forall>e \<in> set post. eventKey e = eventKey r \<longrightarrow> eventTime e \<le> eventTime r)"
proof -
  from assms obtain k where "(k, r) \<in> set (uniqueEvents (errorEvents now events) [])"
    by (auto simp: representatives_def Map_values_def)
  from uniqueEvents_rep [OF wellKept_empty errorEvents_dated this]
  show ?thesis by auto
qed

lemma eventKey_pairOf: "pairOf a = pairOf b \<Longrightarrow> eventKey a = eventKey b"
  by (simp add: pairOf_def eventKey_def)

text \<open>
  C6 (as amended). For every list of events observed for one pod with a namespace, in
  which no two kept events with different (reason, message) pairs print the same key:
  the kept events are those of type Warning or Error whose last-observed time value is
  later than one hour before the check (with no upper bound); the event-derived issues
  are exactly one issue per distinct (reason, message) pair among the kept events; the
  representative of a pair is a kept event of that pair with the latest last-observed
  time, and among several with that time the one that comes first in the list; each
  representative yields severity critical if its type is Error and warning if its type
  is Warning.
\<close>

theorem podEventIssues_deduplicated:
  assumes "ns \<noteq> []" "collisionFree (errorEvents now events)"
  shows "podEventIssues now podName (Some ns) events
           = map (eventIssue podName ns) (representatives now events) \<and>
         errorEvents now events = filter (qualifies now) events \<and>
         distinct (map pairOf (representatives now events)) \<and>
         pairOf ` set (representatives now events) = pairOf ` set (errorEvents now events) \<and>
         length (podEventIssues now podName (Some ns) events)
           = card (pairOf ` set (errorEvents now events)) \<and>
         (\<forall>r \<in> set (representatives now events).
            (\<exists>pre post. errorEvents now events = pre @ r # post \<and>
               (\<forall>e \<in> set pre. pairOf e = pairOf r \<longrightarrow> eventTime e < eventTime r) \<and>
               (\<forall>e \<in> set post. pairOf e = pairOf r \<longrightarrow> eventTime e \<le> eventTime r)) \<and>
            severity (eventIssue podName ns r)
              = (if type r = Some ''Error'' then Critical else Warning) \<and>
            (type r = Some ''Error'' \<or> type r = Some ''Warning''))"
proof -
  let ?Q = "errorEvents now events"
  let ?R = "representatives now events"
  have sub: "set ?R \<subseteq> set ?Q"
    using representatives_first_latest by fastforce
  have inj: "inj_on eventKey (set ?R)"
    using representatives_keys by (metis distinct_map)
  have keyed: "pairOf a = pairOf b \<longleftrightarrow> eventKey a = eventKey b"
    if "a \<in> set ?Q" "b \<in> set ?Q" for a b
    using that assms(2) eventKey_pairOf unfolding collisionFree_def by blast
  have p1: "podEventIssues now podName (Some ns) events = map (eventIssue podName ns) ?R"
    using assms(1) by (simp add: podEventIssues_def representatives_def)
  have p3: "distinct (map pairOf ?R)"
  proof -
    have "inj_on pairOf (set ?R)"
    proof (rule inj_onI)
      fix a b assume ab: "a \<in> set ?R" "b \<in> set ?R" "pairOf a = pairOf b"
      then have "eventKey a = eventKey b" by (rule_tac eventKey_pairOf)
      with inj ab show "a = b" by (simp add: inj_on_def)
    qed
    moreover have "distinct ?R"
      using representatives_keys by (metis distinct_map)
    ultimately show ?thesis by (simp add: distinct_map)
  qed
  have p4: "pairOf ` set ?R = pairOf ` set ?Q"
  proof
    show "pairOf ` set ?R \<subseteq> pairOf ` set ?Q" using sub by blast
    show "pairOf ` set ?Q \<subseteq> pairOf ` set ?R"
    proof
      fix p assume "p \<in> pairOf ` set ?Q"
      then obtain e where e: "e \<in> set ?Q" "p = pairOf e" by blast
      then have "eventKey e \<in> eventKey ` set ?R" using representatives_keys by blast
      then obtain r where r: "r \<in> set ?R" "eventKey r = eventKey e" by auto
      with sub e keyed have "pairOf r = pairOf e" by blast
      with r e show "p \<in> pairOf ` set ?R" by (metis imageI)
    qed
  qed
  have p5: "(\<exists>pre post. ?Q = pre @ r # post \<and>
               (\<forall>e \<in> set pre. pairOf e = pairOf r \<longrightarrow> eventTime e < eventTime r) \<and>
               (\<forall>e \<in> set post. pairOf e = pairOf r \<longrightarrow> eventTime e \<le> eventTime r)) \<and>
            severity (eventIssue podName ns r)
              = (if type r = Some ''Error'' then Critical else Warning) \<and>
            (type r = Some ''Error'' \<or> type r = Some ''Warning'')" if r: "r \<in> set ?R" for r
  proof -
    from representatives_first_latest [OF r] obtain pre post where
      q: "?Q = pre @ r # post" and
      a: "\<forall>e \<in> set pre. eventKey e = eventKey r \<longrightarrow> eventTime e < eventTime r" and
      b: "\<forall>e \<in> set post. eventKey e = eventKey r \<longrightarrow> eventTime e \<le> eventTime r"
      by blast
    from a have a': "\<forall>e \<in> set pre. pairOf e = pairOf r \<longrightarrow> eventTime e < eventTime r"
      using eventKey_pairOf by blast
    from b have b': "\<forall>e \<in> set post. pairOf e = pairOf r \<longrightarrow> eventTime e \<le> eventTime r"
      using eventKey_pairOf by blast
    from r sub have "qualifies now r" by (auto simp: errorEvents_filter)
    then have ty: "type r = Some ''Error'' \<or> type r = Some ''Warning''"
      by (auto simp: qualifies_def)
    have "severity (eventIssue podName ns r) = (if type r = Some ''Error'' then Critical else Warning)"
      by (simp add: eventIssue_def)
    with q a' b' ty show ?thesis by blast
  qed
  have "length (map pairOf ?R) = card (set (map pairOf ?R))"
    using p3 by (simp only: distinct_card)
  with p1 p4 have p6: "length (podEventIssues now podName (Some ns) events)
      = card (pairOf ` set ?Q)"
    by simp
  from p1 errorEvents_filter p3 p4 p5 p6 show ?thesis by blast
qed

theorem podEventIssues_deduplicated_witness:
  "podEventIssues 7200000 ''api'' (Some ''prod'') [evBackOff30, evBackOffOld, evFailed, evBackOff5]
     = map (eventIssue ''api'' ''prod'') [evBackOff5, evFailed] \<and>
   errorEvents 7200000 [evBackOff30, evBackOffOld, evFailed, evBackOff5]
     = [evBackOff30, evFailed, evBackOff5] \<and>
   length (podEventIssues 7200000 ''api'' (Some ''prod'')
        [evBackOff30, evBackOffOld, evFailed, evBackOff5])
     = card (pairOf ` set (errorEvents 7200000 [evBackOff30, evBackOffOld, evFailed, evBackOff5]))"
proof -
  let ?evs = "[evBackOff30, evBackOffOld, evFailed, evBackOff5]"
  have n: "''prod'' \<noteq> []" by simp
  have c: "collisionFree (errorEvents 7200000 ?evs)" by code_simp
  have r: "representatives 7200000 ?evs = [evBackOff5, evFailed]" by code_simp
  have q: "errorEvents 7200000 ?evs = [evBackOff30, evFailed, evBackOff5]" by code_simp
  note w = podEventIssues_deduplicated [OF n c, of "''api''"]
  from w have "podEventIssues 7200000 ''api'' (Some ''prod'') ?evs
      = map (eventIssue ''api'' ''prod'') (representatives 7200000 ?evs)" by blast
  moreover from w have "length (podEventIssues 7200000 ''api'' (Some ''prod'') ?evs)
     = card (pairOf ` set (errorEvents 7200000 ?evs))" by blast
  ultimately show ?thesis using r q by (simp only: simp_thms)
qed

theorem podEventIssues_deduplicated_counterexample:
  "errorEvents 7200000 [evNodeA, evNodeB] = [evNodeA, evNodeB] \<and>
   pairOf evNodeA \<noteq> pairOf evNodeB \<and>
   podEventIssues 7200000 ''api'' (Some ''prod'') [evNodeA, evNodeB]
     = [eventIssue ''api'' ''prod'' evNodeA] \<and>
   podEventIssues 7200000 ''api'' (Some ''prod'') [evProbeW, evProbeE]
     = [eventIssue ''api'' ''prod'' evProbeW] \<and>
   podEventIssues 7200000 ''api'' (Some ''prod'') [evProbeE, evProbeW]
     = [eventIssue ''api'' ''prod'' evProbeE] \<and>
   severity (eventIssue ''api'' ''prod'' evProbeW) = Warning \<and>
   severity (eventIssue ''api'' ''prod'' evProbeE) = Critical"
  by code_simp

lemma errorEvents_drop:
  "\<not> isRecent now ev \<Longrightarrow> errorEvents now (pre @ ev # post) = errorEvents now (pre @ post)"
  by (simp add: errorEvents_def)

text \<open>
  C10. An event whose last-observed timestamp is absent never passes the recency filter,
  is never among the kept events, and produces no issue: the issues of a list with the
  event are those of the list without it, whatever its type, reason and message.
\<close>

theorem absent_timestamp_excluded:
  assumes "lastTimestamp ev = None"
  shows "\<not> isRecent now ev \<and> ev \<notin> set (errorEvents now events) \<and>
         podEventIssues now podName podNamespace (pre @ ev # post)
           = podEventIssues now podName podNamespace (pre @ post)"
proof -
  from assms have nr: "\<not> isRecent now ev" by (simp add: isRecent_def)
  then have "ev \<notin> set (errorEvents now events)" by (auto simp: errorEvents_def)
  moreover from nr have "errorEvents now (pre @ ev # post) = errorEvents now (pre @ post)"
    by (rule errorEvents_drop)
  then have "podEventIssues now podName podNamespace (pre @ ev # post)
           = podEventIssues now podName podNamespace (pre @ post)"
    by (simp add: podEventIssues_def split: option.splits)
  ultimately show ?thesis using nr by blast
qed

theorem absent_timestamp_excluded_witness:
  "podEventIssues 7200000 ''api'' (Some ''prod'') ([evFailed] @ evUndated # [])
     = [eventIssue ''api'' ''prod'' evFailed] \<and>
   evUndated \<notin> set (errorEvents 7200000 [evFailed, evUndated])"
proof -
  have a: "lastTimestamp evUndated = None" by code_simp
  have b: "podEventIssues 7200000 ''api'' (Some ''prod'') ([evFailed] @ [])
      = [eventIssue ''api'' ''prod'' evFailed]" by code_simp
  note w = absent_timestamp_excluded [OF a, of 7200000]
  from w [of _ "''api''" "Some ''prod''" "[evFailed]" "[]"]
  have "podEventIssues 7200000 ''api'' (Some ''prod'') ([evFailed] @ evUndated # [])
      = podEventIssues 7200000 ''api'' (Some ''prod'') ([evFailed] @ [])" by blast
  moreover from w [of "[evFailed, evUndated]"]
  have "evUndated \<notin> set (errorEvents 7200000 [evFailed, evUndated])" by blast
  ultimately show ?thesis using b by (simp only: simp_thms)
qed

end
